theory Spec2Isabelle
  imports Main "HOL-Library.Sublist" "HOL-Library.Code_Target_Nat"
begin

section \<open>Strings and characters\<close>

text \<open>
  A JavaScript string is modelled as a \<^typ>\<open>string\<close>: each \<^typ>\<open>char\<close> stands for one code unit
  in the range 0..255 (ASCII and Latin-1). Strings are immutable values.
\<close>

definition dquote :: char where
  "dquote = CHR 0x22"

definition squote :: char where
  "squote = CHR 0x27"

definition backslash :: char where
  "backslash = CHR 0x5C"

definition newline :: char where
  "newline = CHR 0x0A"

definition slash :: char where
  "slash = CHR ''/''"

text \<open>
  The regular expression class \<open>\s\<close> restricted to code units below 256: tab, line feed,
  vertical tab, form feed, carriage return, space and no-break space.
\<close>

definition is_space :: "char \<Rightarrow> bool" where
  "is_space c \<longleftrightarrow> c \<in> {CHR 0x09, CHR 0x0A, CHR 0x0B, CHR 0x0C, CHR 0x0D, CHR 0x20, CHR 0xA0}"

section \<open>Tokenizer\<close>

text \<open>
  \<open>pushCurrent\<close> of the source appends the pending token to \<open>tokens\<close> unless it is empty and
  resets \<open>current\<close>; the model returns the new token list and every caller continues with the
  empty \<open>current\<close>.
\<close>

definition pushCurrent :: "string list \<Rightarrow> string \<Rightarrow> string list" where
  "pushCurrent tokens current = (if current = [] then tokens else tokens @ [current])"

text \<open>
  The inner loop of the comment branch, \<open>while (i < text.length && text[i] !== '\n') i += 1\<close>:
  it starts at the \<open>#\<close> itself and stops in front of the line feed.
\<close>

fun skip_comment :: "string \<Rightarrow> string" where
  "skip_comment [] = []"
| "skip_comment (c # cs) = (if c = newline then c # cs else skip_comment cs)"

lemma length_skip_comment: "length (skip_comment cs) \<le> length cs"
  by (induction cs) auto

lemma skip_comment_dropWhile: "skip_comment cs = dropWhile (\<lambda>c. c \<noteq> newline) cs"
  by (induction cs) auto

text \<open>
  The main loop of \<open>tokenizeNginxConf\<close>. The index \<open>i\<close> of the source is the position of the
  remaining text in the whole text; \<open>quote\<close> is \<open>None\<close> for \<open>null\<close>.
\<close>

function tokenize_loop :: "string list \<Rightarrow> string \<Rightarrow> char option \<Rightarrow> string \<Rightarrow> string list" where
  "tokenize_loop tokens current quote [] = pushCurrent tokens current"
| "tokenize_loop tokens current (Some q) (ch # rest) =
     (if ch = q then tokenize_loop tokens current None rest
      else if ch = backslash \<and> rest \<noteq> [] then
        tokenize_loop tokens (current @ [hd rest]) (Some q) (tl rest)
      else tokenize_loop tokens (current @ [ch]) (Some q) rest)"
| "tokenize_loop tokens current None (ch # rest) =
     (if ch = dquote \<or> ch = squote then tokenize_loop tokens current (Some ch) rest
      else if ch = CHR ''#'' then
        tokenize_loop (pushCurrent tokens current) [] None (skip_comment (ch # rest))
      else if is_space ch then tokenize_loop (pushCurrent tokens current) [] None rest
      else if ch = CHR ''{'' \<or> ch = CHR ''}'' \<or> ch = CHR '';'' then
        tokenize_loop (pushCurrent tokens current @ [[ch]]) [] None rest
      else tokenize_loop tokens (current @ [ch]) None rest)"
  by pat_completeness auto
termination
proof (relation "measure (\<lambda>(tokens, current, quote, text). length text)", goal_cases)
  case (6 tokens current ch rest)
  have "length (skip_comment rest) \<le> length rest"
    by (rule length_skip_comment)
  with 6 show ?case
    by (simp add: newline_def)
qed auto

definition tokenizeNginxConf :: "string \<Rightarrow> string list" where
  "tokenizeNginxConf text = tokenize_loop [] [] None text"

lemma pushCurrent_append: "pushCurrent (pre @ tokens) current = pre @ pushCurrent tokens current"
  by (simp add: pushCurrent_def)

lemma tokenize_loop_append:
  "tokenize_loop (pre @ tokens) current quote inp = pre @ tokenize_loop tokens current quote inp"
  by (induction tokens current quote inp rule: tokenize_loop.induct)
     (simp_all add: pushCurrent_append del: append_assoc add: append_assoc[symmetric])




section \<open>Structural parser\<close>

text \<open>
  An AST node is the object \<open>{type: 'directive', name, args}\<close> or
  \<open>{type: 'block', name, args, children}\<close> of the source.
\<close>

datatype node =
    Directive (node_name: string) (node_args: "string list")
  | Block (node_name: string) (node_args: "string list") (node_children: "node list")

definition is_terminator :: "string \<Rightarrow> bool" where
  "is_terminator cur \<longleftrightarrow> cur = '';'' \<or> cur = ''{'' \<or> cur = ''}''"

text \<open>
  The inner loop of \<open>parseBlock\<close> gathers tokens into \<open>parts\<close> until a terminator or the
  end of the tokens; the result is \<open>parts\<close> and the tokens from index \<open>idx\<close> on.
\<close>

fun collect_parts :: "string list \<Rightarrow> string list \<times> string list" where
  "collect_parts [] = ([], [])"
| "collect_parts (cur # ts) =
     (if is_terminator cur then ([], cur # ts)
      else case collect_parts ts of (parts, r) \<Rightarrow> (cur # parts, r))"

lemma collect_parts_eq:
  "collect_parts ts = (takeWhile (\<lambda>t. \<not> is_terminator t) ts, dropWhile (\<lambda>t. \<not> is_terminator t) ts)"
  by (induction ts) simp_all

lemma length_collect_parts: "length (snd (collect_parts ts)) \<le> length ts"
  by (simp add: collect_parts_eq length_dropWhile_le)

lemma length_collect_parts_less:
  "fst (collect_parts ts) \<noteq> [] \<Longrightarrow> length (snd (collect_parts ts)) < length ts"
  by (cases ts) (auto simp: collect_parts_eq less_Suc_eq_le length_dropWhile_le)

text \<open>
  \<open>parseBlock\<close> of the source reads the shared index \<open>idx\<close>; the model passes the tokens
  from \<open>idx\<close> on and returns the items together with the tokens that remain. \<open>end\<close> is
  the head \<open>e\<close> of \<open>r\<close>, and \<open>undefined\<close> when \<open>r\<close> is empty: then \<open>idx += 1\<close> leaves the
  loop and the collected group is not pushed. The last branch (an \<open>end\<close> that is no
  terminator) mirrors the final \<open>idx += 1\<close> of the loop body.
\<close>

function parseBlock :: "string list \<Rightarrow> node list \<times> string list" where
  "parseBlock [] = ([], [])"
| "parseBlock (t # ts) =
     (if t = ''}'' then ([], ts)
      else
        case collect_parts (t # ts) of (parts, r) \<Rightarrow>
          (case parts of
             [] \<Rightarrow> parseBlock (drop 1 r)
           | name # args \<Rightarrow>
               (case r of
                  [] \<Rightarrow> ([], [])
                | e # r' \<Rightarrow>
                    if e = '';'' then
                      (case parseBlock r' of (items, r2) \<Rightarrow> (Directive name args # items, r2))
                    else if e = ''{'' then
                      (case parseBlock r' of (children, r1) \<Rightarrow>
                         (case parseBlock r1 of (items, r2) \<Rightarrow>
                            (Block name args children # items, r2)))
                    else if e = ''}'' then
                      (case parseBlock r of (items, r2) \<Rightarrow> (Directive name args # items, r2))
                    else parseBlock r')))"
  by pat_completeness auto

lemma parseBlock_length:
  "parseBlock_dom ts \<Longrightarrow> length (snd (parseBlock ts)) \<le> length ts"
proof (induction ts rule: parseBlock.pinduct)
  case 1
  then show ?case by (simp add: parseBlock.psimps)
next
  case (2 t ts)
  note dom = "2.hyps"
  note IH = "2.IH"
  show ?case
  proof (cases "t = ''}''")
    case True
    with dom show ?thesis by (simp add: parseBlock.psimps)
  next
    case ne: False
    obtain parts r where cp: "collect_parts (t # ts) = (parts, r)"
      by (cases "collect_parts (t # ts)")
    have r_le: "length r \<le> Suc (length ts)"
      using length_collect_parts [of "t # ts"] cp by simp
    show ?thesis
    proof (cases parts)
      case Nil
      have "length (snd (parseBlock (drop 1 r))) \<le> length (drop 1 r)"
        by (rule IH(1)[OF ne cp[symmetric] Nil])
      with dom ne cp Nil r_le show ?thesis
        by (simp add: parseBlock.psimps del: collect_parts.simps)
    next
      case (Cons name args)
      have r_less: "length r \<le> length ts"
        using length_collect_parts_less [of "t # ts"] cp Cons by simp
      show ?thesis
      proof (cases r)
        case Nil
        with dom ne cp Cons show ?thesis
          by (simp add: parseBlock.psimps del: collect_parts.simps)
      next
        case r: (Cons e r')
        consider (c_semi) "e = '';''" | (c_open) "e \<noteq> '';''" "e = ''{''"
          | (c_close) "e \<noteq> '';''" "e \<noteq> ''{''" "e = ''}''"
          | (c_other) "e \<noteq> '';''" "e \<noteq> ''{''" "e \<noteq> ''}''"
          by blast
        then show ?thesis
        proof cases
          case c_semi
          have "length (snd (parseBlock r')) \<le> length r'"
            by (rule IH(2)[OF ne cp[symmetric] Cons r c_semi])
          with dom ne cp Cons r c_semi r_less show ?thesis
            by (auto simp add: parseBlock.psimps split: prod.splits simp del: collect_parts.simps)
        next
          case c_open
          obtain children r1 where p1: "parseBlock r' = (children, r1)"
            by (cases "parseBlock r'")
          have a: "length (snd (parseBlock r')) \<le> length r'"
            by (rule IH(3)[OF ne cp[symmetric] Cons r c_open])
          have b: "length (snd (parseBlock r1)) \<le> length r1"
            by (rule IH(4)[OF ne cp[symmetric] Cons r c_open p1[symmetric]])
          from a b p1 dom ne cp Cons r c_open r_less show ?thesis
            by (auto simp add: parseBlock.psimps split: prod.splits simp del: collect_parts.simps)
        next
          case c_close
          have "length (snd (parseBlock r)) \<le> length r"
            by (rule IH(5)[OF ne cp[symmetric] Cons r c_close])
          with dom ne cp Cons r c_close r_less show ?thesis
            by (auto simp add: parseBlock.psimps split: prod.splits simp del: collect_parts.simps)
        next
          case c_other
          have "length (snd (parseBlock r')) \<le> length r'"
            by (rule IH(6)[OF ne cp[symmetric] Cons r c_other])
          with dom ne cp Cons r c_other r_less show ?thesis
            by (auto simp add: parseBlock.psimps split: prod.splits simp del: collect_parts.simps)
        qed
      qed
    qed
  qed
qed

lemma parseBlock_total: "All parseBlock_dom"
proof (relation "measure length", goal_cases)
  case 1
  show ?case by simp
next
  case (2 t ts parts r)
  then have "r = snd (collect_parts (t # ts))"
    by (metis snd_conv)
  then show ?case
    using length_collect_parts [of "t # ts"] by simp
next
  case (3 t ts parts r name args e r')
  then have "r = snd (collect_parts (t # ts))"
    by (metis snd_conv)
  with 3 show ?case
    using length_collect_parts [of "t # ts"] by simp
next
  case (4 t ts parts r name args e r')
  then have "r = snd (collect_parts (t # ts))"
    by (metis snd_conv)
  with 4 show ?case
    using length_collect_parts [of "t # ts"] by simp
next
  case (5 t ts parts r name args e r' children r1)
  then have "r = snd (collect_parts (t # ts))" and "r1 = snd (parseBlock r')"
    by (metis snd_conv)+
  with 5 show ?case
    using length_collect_parts [of "t # ts"] parseBlock_length [of r'] by simp
next
  case (6 t ts parts r name args e r')
  then have "r = snd (collect_parts (t # ts))" and "parts = fst (collect_parts (t # ts))"
    by (metis snd_conv, metis fst_conv)
  with 6 show ?case
    using length_collect_parts_less [of "t # ts"] by simp
next
  case (7 t ts parts r name args e r')
  then have "r = snd (collect_parts (t # ts))"
    by (metis snd_conv)
  with 7 show ?case
    using length_collect_parts [of "t # ts"] by simp
qed

termination parseBlock
  by (rule parseBlock_total)

lemma parseBlock_consumes: "length (snd (parseBlock ts)) \<le> length ts"
  using parseBlock_length parseBlock_total by blast

definition parseNginxTokens :: "string list \<Rightarrow> node list" where
  "parseNginxTokens tokens = fst (parseBlock tokens)"

lemma collect_parts_group:
  "list_all (\<lambda>t. \<not> is_terminator t) g \<Longrightarrow> is_terminator e \<Longrightarrow>
   collect_parts (g @ e # rest) = (g, e # rest)"
  by (induction g) simp_all

lemma collect_parts_group_end:
  "list_all (\<lambda>t. \<not> is_terminator t) g \<Longrightarrow> collect_parts g = (g, [])"
  by (induction g) simp_all

lemma set_collect_parts: "set (snd (collect_parts ts)) \<subseteq> set ts"
  by (auto simp: collect_parts_eq dest: set_dropWhileD)

lemma parseBlock_group:
  assumes "g \<noteq> []" and "list_all (\<lambda>t. \<not> is_terminator t) g"
  shows "parseBlock g = ([], [])"
    and "is_terminator e \<Longrightarrow> parseBlock (g @ e # rest) =
      (if e = '';'' then (Directive (hd g) (tl g) # fst (parseBlock rest), snd (parseBlock rest))
       else if e = ''{'' then
         (Block (hd g) (tl g) (fst (parseBlock rest)) # fst (parseBlock (snd (parseBlock rest))),
          snd (parseBlock (snd (parseBlock rest))))
       else ([Directive (hd g) (tl g)], rest))"
proof -
  obtain t ts where g: "g = t # ts" using assms(1) by (cases g) auto
  have nt: "\<not> is_terminator t" using assms(2) g by simp
  then have ne: "t \<noteq> ''}''" by (auto simp: is_terminator_def)
  have "collect_parts (t # ts) = (t # ts, [])"
    using collect_parts_group_end [OF assms(2)] g by simp
  then show "parseBlock g = ([], [])"
    unfolding g using ne by (simp del: collect_parts.simps)
  assume e: "is_terminator e"
  have "collect_parts (t # ts @ e # rest) = (t # ts, e # rest)"
    using collect_parts_group [OF assms(2) e, of rest] g by simp
  then show "parseBlock (g @ e # rest) =
      (if e = '';'' then (Directive (hd g) (tl g) # fst (parseBlock rest), snd (parseBlock rest))
       else if e = ''{'' then
         (Block (hd g) (tl g) (fst (parseBlock rest)) # fst (parseBlock (snd (parseBlock rest))),
          snd (parseBlock (snd (parseBlock rest))))
       else ([Directive (hd g) (tl g)], rest))"
    unfolding g using ne e
    by (auto simp add: is_terminator_def split: prod.splits simp del: collect_parts.simps)
qed

lemma parseBlock_unclosed: "''}'' \<notin> set body \<Longrightarrow> snd (parseBlock body) = []"
proof (induction body rule: parseBlock.induct)
  case 1
  then show ?case by simp
next
  case (2 t ts)
  note IH = "2.IH"
  have ne: "t \<noteq> ''}''" using "2.prems" by auto
  obtain parts r where cp: "collect_parts (t # ts) = (parts, r)"
    by (cases "collect_parts (t # ts)")
  have r0: "''}'' \<notin> set r"
    using set_collect_parts [of "t # ts"] "2.prems" cp by auto
  show ?case
  proof (cases parts)
    case Nil
    have "''}'' \<notin> set (drop 1 r)"
      using r0 by (cases r) simp_all
    from IH(1)[OF ne cp[symmetric] Nil this] ne cp Nil show ?thesis
      by (simp del: collect_parts.simps)
  next
    case (Cons name args)
    show ?thesis
    proof (cases r)
      case Nil
      with ne cp Cons show ?thesis
        by (simp del: collect_parts.simps)
    next
      case r: (Cons e r')
      have r': "''}'' \<notin> set r'" and e: "e \<noteq> ''}''"
        using r0 r by auto
      consider (c_semi) "e = '';''" | (c_open) "e \<noteq> '';''" "e = ''{''"
        | (c_other) "e \<noteq> '';''" "e \<noteq> ''{''" "e \<noteq> ''}''"
        using e by blast
      then show ?thesis
      proof cases
        case c_semi
        from IH(2)[OF ne cp[symmetric] Cons r c_semi r'] ne cp Cons r c_semi show ?thesis
          by (auto split: prod.splits simp del: collect_parts.simps)
      next
        case c_open
        have "snd (parseBlock r') = []"
          by (rule IH(3)[OF ne cp[symmetric] Cons r c_open r'])
        with ne cp Cons r c_open show ?thesis
          by (auto split: prod.splits simp del: collect_parts.simps)
      next
        case c_other
        from IH(6)[OF ne cp[symmetric] Cons r c_other r'] ne cp Cons r c_other show ?thesis
          by (auto split: prod.splits simp del: collect_parts.simps)
      qed
    qed
  qed
qed

section \<open>Paths\<close>

text \<open>
  The functions of Node's \<open>path\<close> module are library code outside the repository. They are
  modelled here as Node documents them for a POSIX host (\<open>path\<close> is \<open>path.posix\<close>, the separator
  \<open>path.sep\<close> is \<open>/\<close>); the working directory \<open>process.cwd()\<close> is the parameter \<open>cwd\<close>.
  The drive letters and backslash separators of \<open>path.win32\<close> are not modelled.
\<close>

definition sep :: string where
  "sep = ''/''"

text \<open>The segments of a path: the pieces between the occurrences of the separator.\<close>

fun split_on :: "char \<Rightarrow> string \<Rightarrow> string list" where
  "split_on c [] = [[]]"
| "split_on c (x # xs) =
     (if x = c then [] # split_on c xs
      else case split_on c xs of [] \<Rightarrow> [[x]] | s # ss \<Rightarrow> (x # s) # ss)"

fun join_slash :: "string list \<Rightarrow> string" where
  "join_slash [] = []"
| "join_slash [s] = s"
| "join_slash (s # t # ss) = s @ ''/'' @ join_slash (t # ss)"

text \<open>
  One step of the normalisation, on the segments kept so far: empty segments and \<open>.\<close> are
  dropped, \<open>..\<close> removes the last kept segment unless there is none or it is itself \<open>..\<close>;
  then \<open>..\<close> is kept when the path may climb above its start and dropped otherwise.
\<close>

definition norm_step :: "bool \<Rightarrow> string list \<Rightarrow> string \<Rightarrow> string list" where
  "norm_step allowAboveRoot res seg =
     (if seg = [] \<or> seg = ''.'' then res
      else if seg = ''..'' then
        (if res \<noteq> [] \<and> last res \<noteq> ''..'' then butlast res
         else if allowAboveRoot then res @ [''..''] else res)
      else res @ [seg])"

definition norm_segments :: "bool \<Rightarrow> string \<Rightarrow> string list" where
  "norm_segments allowAboveRoot p = foldl (norm_step allowAboveRoot) [] (split_on slash p)"

definition normalizeString :: "bool \<Rightarrow> string \<Rightarrow> string" where
  "normalizeString allowAboveRoot p = join_slash (norm_segments allowAboveRoot p)"

definition isAbsolute :: "string \<Rightarrow> bool" where
  "isAbsolute p \<longleftrightarrow> p \<noteq> [] \<and> hd p = slash"

definition normalize :: "string \<Rightarrow> string" where
  "normalize p =
     (if p = [] then ''.''
      else
        let trailingSeparator = (last p = slash);
            n = normalizeString (\<not> isAbsolute p) p
        in if n = [] then (if isAbsolute p then ''/'' else if trailingSeparator then ''./'' else ''.'')
           else (if isAbsolute p then ''/'' else []) @ n @ (if trailingSeparator then ''/'' else []))"

definition join :: "string list \<Rightarrow> string" where
  "join args =
     (let joined = filter (\<lambda>arg. arg \<noteq> []) args
      in if joined = [] then ''.'' else normalize (join_slash joined))"

text \<open>
  The loop of \<open>path.resolve\<close> walks the arguments from the last to the first and then the
  working directory, prepending each non-empty one, until an absolute one has been taken.
\<close>

fun resolve_loop :: "string list \<Rightarrow> string \<Rightarrow> string \<times> bool" where
  "resolve_loop [] resolvedPath = (resolvedPath, False)"
| "resolve_loop (p # ps) resolvedPath =
     (if p = [] then resolve_loop ps resolvedPath
      else if hd p = slash then (p @ ''/'' @ resolvedPath, True)
      else resolve_loop ps (p @ ''/'' @ resolvedPath))"

definition resolve :: "string \<Rightarrow> string list \<Rightarrow> string" where
  "resolve cwd args =
     (let (resolvedPath, resolvedAbsolute) = resolve_loop (rev args @ [cwd]) [];
          n = normalizeString (\<not> resolvedAbsolute) resolvedPath
      in if resolvedAbsolute then ''/'' @ n
         else if n \<noteq> [] then n else ''.'')"

text \<open>
  \<open>String.prototype.toLowerCase\<close> on code units below 256: the letters A to Z and the
  Latin-1 capitals (0xC0 to 0xDE without the multiplication sign 0xD7) move up by 32.
\<close>

definition lower_char :: "char \<Rightarrow> char" where
  "lower_char c =
     (let n = (of_char c :: nat)
      in if (65 \<le> n \<and> n \<le> 90) \<or> (192 \<le> n \<and> n \<le> 222 \<and> n \<noteq> 215)
         then char_of (n + 32) else c)"

definition toLowerCase :: "string \<Rightarrow> string" where
  "toLowerCase s = map lower_char s"

section \<open>Safe path resolver\<close>

text \<open>
  \<open>safeJoin\<close> returns \<open>null\<close> (here \<open>None\<close>) or the candidate path. \<open>String(requestPath || '/')\<close>
  replaces the empty request path by \<open>/\<close>.
\<close>

definition safeJoin :: "string \<Rightarrow> string \<Rightarrow> string \<Rightarrow> string option" where
  "safeJoin cwd rootDir requestPath =
     (let normalized =
            normalize (map (\<lambda>c. if c = backslash then slash else c)
                         (if requestPath = [] then ''/'' else requestPath));
          withoutLeading = dropWhile (\<lambda>c. c = slash) normalized;
          candidate = resolve cwd [rootDir, withoutLeading];
          rootResolved = resolve cwd [rootDir]
      in if toLowerCase candidate = toLowerCase rootResolved then Some candidate
         else if \<not> prefix (toLowerCase rootResolved @ sep) (toLowerCase candidate) then None
         else Some candidate)"



lemma split_on_not_Nil: "split_on c xs \<noteq> []"
  by (induction xs) (auto split: list.splits)

lemma split_on_append: "split_on c (xs @ c # ys) = split_on c xs @ split_on c ys"
  by (induction xs) (auto split: list.splits simp: split_on_not_Nil)

lemma resolve_loop_acc:
  "resolve_loop ps acc = (fst (resolve_loop ps []) @ acc, snd (resolve_loop ps []))"
proof (induction ps arbitrary: acc)
  case Nil
  show ?case by simp
next
  case (Cons p ps)
  show ?case
    using Cons [of acc] Cons [of "p @ ''/'' @ acc"] Cons [of "p @ ''/''"]
    by simp
qed

lemma resolve_loop_absolute:
  "isAbsolute cwd \<Longrightarrow> snd (resolve_loop (ps @ [cwd]) acc)"
  by (induction ps arbitrary: acc) (auto simp: isAbsolute_def)

lemma resolve_loop_slash:
  "fst (resolve_loop ps []) = [] \<or> last (fst (resolve_loop ps [])) = slash"
proof (induction ps)
  case Nil
  show ?case by simp
next
  case (Cons p ps)
  show ?case
    using Cons resolve_loop_acc [of ps "p @ ''/''"]
    by (auto simp: slash_def)
qed

lemma resolve_absolute: "isAbsolute cwd \<Longrightarrow> isAbsolute (resolve cwd args)"
  using resolve_loop_absolute [of cwd "rev args" "[]"]
  by (auto simp: resolve_def isAbsolute_def slash_def split: prod.splits)

lemma join_slash_append:
  "S \<noteq> [] \<Longrightarrow> T \<noteq> [] \<Longrightarrow> join_slash (S @ T) = join_slash S @ ''/'' @ join_slash T"
  by (induction S rule: join_slash.induct) (auto simp: neq_Nil_conv)

lemma toLowerCase_append: "toLowerCase (a @ b) = toLowerCase a @ toLowerCase b"
  by (simp add: toLowerCase_def)

lemma lower_etc: "toLowerCase ''/etc/passwd'' = ''/etc/passwd''"
  by (simp add: toLowerCase_def lower_char_def)

lemma normalize_etc: "normalize ''/../../etc/passwd'' = ''/etc/passwd''"
  by (simp add: normalize_def normalizeString_def norm_segments_def norm_step_def isAbsolute_def slash_def)


lemma norm_segments_append:
  "norm_segments a (xs @ slash # ys) = foldl (norm_step a) (norm_segments a xs) (split_on slash ys)"
  by (simp add: norm_segments_def split_on_append)

lemma resolve_under_root:
  assumes "isAbsolute cwd" and "resolve cwd [rootDir] \<noteq> ''/''"
  shows "resolve cwd [rootDir, ''etc/passwd''] = resolve cwd [rootDir] @ ''/etc/passwd''"
proof -
  define rp where "rp = fst (resolve_loop [rootDir, cwd] [])"
  have abs: "snd (resolve_loop [rootDir, cwd] [])"
    using resolve_loop_absolute [OF assms(1), of "[rootDir]" "[]"] by simp
  have rl: "resolve_loop [rootDir, cwd] [] = (rp, True)"
    using abs by (simp add: rp_def prod_eq_iff del: resolve_loop.simps)
  have root: "resolve cwd [rootDir] = ''/'' @ join_slash (norm_segments False rp)"
    by (simp add: resolve_def rl normalizeString_def del: resolve_loop.simps)
  have "resolve_loop [''etc/passwd'', rootDir, cwd] [] = resolve_loop [rootDir, cwd] ''etc/passwd/''"
    by (subst resolve_loop.simps) (simp add: slash_def del: resolve_loop.simps)
  also have "\<dots> = (rp @ ''etc/passwd/'', True)"
    using resolve_loop_acc [of "[rootDir, cwd]" "''etc/passwd/''"]
    by (simp add: rl del: resolve_loop.simps)
  finally have cand: "resolve cwd [rootDir, ''etc/passwd''] =
      ''/'' @ join_slash (norm_segments False (rp @ ''etc/passwd/''))"
    by (simp add: resolve_def normalizeString_def del: resolve_loop.simps)
  have "rp \<noteq> []"
  proof
    assume "rp = []"
    then have "resolve cwd [rootDir] = ''/''"
      using root by (simp add: norm_segments_def norm_step_def)
    with assms(2) show False by simp
  qed
  then have "last rp = slash"
    using resolve_loop_slash [of "[rootDir, cwd]"] by (simp add: rl del: resolve_loop.simps)
  with \<open>rp \<noteq> []\<close> obtain rp' where rp': "rp = rp' @ [slash]"
    by (metis append_butlast_last_id)
  define S where "S = norm_segments False rp'"
  have nroot: "norm_segments False rp = S"
    using norm_segments_append [of False rp' "[]"]
    by (simp add: rp' S_def norm_step_def)
  have "S \<noteq> []"
    using assms(2) root nroot by auto
  have "norm_segments False (rp @ ''etc/passwd/'') = S @ [''etc'', ''passwd'']"
    using norm_segments_append [of False rp' "''etc/passwd/''"]
    by (simp add: rp' S_def norm_step_def slash_def)
  then have "resolve cwd [rootDir, ''etc/passwd''] = ''/'' @ join_slash S @ ''/etc/passwd''"
    using cand join_slash_append [OF \<open>S \<noteq> []\<close>, of "[''etc'', ''passwd'']"] by simp
  then show ?thesis
    using root nroot by simp
qed

lemma safeJoin_unfold:
  "safeJoin cwd rootDir requestPath =
     (let candidate = resolve cwd
            [rootDir,
             dropWhile (\<lambda>c. c = slash)
               (normalize (map (\<lambda>c. if c = backslash then slash else c)
                  (if requestPath = [] then ''/'' else requestPath)))]
      in if toLowerCase candidate = toLowerCase (resolve cwd [rootDir])
            \<or> prefix (toLowerCase (resolve cwd [rootDir]) @ sep) (toLowerCase candidate)
         then Some candidate else None)"
  unfolding safeJoin_def Let_def by simp


text \<open>
  A segment of a normalised absolute path: not empty, not \<open>.\<close>, not \<open>..\<close>, and free of the
  separator.
\<close>

definition clean_segment :: "string \<Rightarrow> bool" where
  "clean_segment s \<longleftrightarrow> s \<noteq> [] \<and> s \<noteq> ''.'' \<and> s \<noteq> ''..'' \<and> slash \<notin> set s"

lemma split_on_free: "c \<notin> set s \<Longrightarrow> split_on c s = [s]"
  by (induction s) auto

lemma split_on_segments_free: "s \<in> set (split_on c xs) \<Longrightarrow> c \<notin> set s"
  by (induction xs arbitrary: s) (auto split: if_splits list.splits)

lemma norm_step_clean:
  "list_all clean_segment res \<Longrightarrow> slash \<notin> set seg \<Longrightarrow>
   list_all clean_segment (norm_step False res seg)"
  by (auto simp: norm_step_def list_all_iff clean_segment_def dest: in_set_butlastD)

lemma foldl_norm_step_clean:
  "list_all clean_segment res \<Longrightarrow> \<forall>s \<in> set segs. slash \<notin> set s \<Longrightarrow>
   list_all clean_segment (foldl (norm_step False) res segs)"
  by (induction segs arbitrary: res) (simp_all add: norm_step_clean)

lemma norm_segments_clean: "list_all clean_segment (norm_segments False p)"
  unfolding norm_segments_def
  by (rule foldl_norm_step_clean) (auto dest: split_on_segments_free)

lemma resolve_normal:
  assumes "isAbsolute cwd"
  shows "\<exists>segs. resolve cwd args = ''/'' @ join_slash segs \<and> list_all clean_segment segs"
proof -
  obtain rp ab where rl: "resolve_loop (rev args @ [cwd]) [] = (rp, ab)"
    by (cases "resolve_loop (rev args @ [cwd]) []")
  with resolve_loop_absolute [OF assms, of "rev args" "[]"] have "ab"
    by simp
  with rl have "resolve cwd args = ''/'' @ join_slash (norm_segments False rp)"
    by (simp add: resolve_def normalizeString_def del: resolve_loop.simps)
  with norm_segments_clean show ?thesis
    by blast
qed

lemma split_join_slash:
  "\<forall>s \<in> set segs. slash \<notin> set s \<Longrightarrow> segs \<noteq> [] \<Longrightarrow>
   split_on slash (join_slash segs) = segs"
proof (induction segs rule: join_slash.induct)
  case 1
  then show ?case by simp
next
  case (2 s)
  then show ?case by (simp add: split_on_free)
next
  case (3 s t ss)
  have "join_slash (s # t # ss) = s @ slash # join_slash (t # ss)"
    by (simp add: slash_def)
  then show ?case
    using 3 by (simp add: split_on_append split_on_free del: join_slash.simps)
qed

lemma join_slash_Nil_iff:
  "\<forall>s \<in> set segs. s \<noteq> [] \<Longrightarrow> join_slash segs = [] \<longleftrightarrow> segs = []"
  by (induction segs rule: join_slash.induct) auto

lemma lower_char_slash: "lower_char c = slash \<longleftrightarrow> c = slash"
proof
  assume "c = slash"
  then show "lower_char c = slash"
    by (simp add: lower_char_def slash_def)
next
  assume l: "lower_char c = slash"
  define n where "n = (of_char c :: nat)"
  show "c = slash"
  proof (cases "(65 \<le> n \<and> n \<le> 90) \<or> (192 \<le> n \<and> n \<le> 222 \<and> n \<noteq> 215)")
    case True
    then have "char_of (n + 32) = slash"
      using l by (simp add: lower_char_def n_def Let_def)
    then have "(of_char (char_of (n + 32)) :: nat) = of_char slash"
      by simp
    then have "(n + 32) mod 256 = 47"
      by (simp add: slash_def)
    with True show ?thesis
      by auto
  next
    case False
    then show ?thesis
      using l by (auto simp: lower_char_def n_def Let_def split: if_splits)
  qed
qed

lemma toLowerCase_join_slash:
  "toLowerCase (join_slash segs) = join_slash (map toLowerCase segs)"
  by (induction segs rule: join_slash.induct)
     (simp_all add: toLowerCase_def lower_char_def)

lemma toLowerCase_slash: "toLowerCase (CHR ''/'' # xs) = CHR ''/'' # toLowerCase xs"
  by (simp add: toLowerCase_def lower_char_def)

lemma toLowerCase_segment:
  assumes "clean_segment s"
  shows "toLowerCase s \<noteq> [] \<and> slash \<notin> set (toLowerCase s)"
proof -
  have "slash \<notin> set (toLowerCase s)"
  proof
    assume "slash \<in> set (toLowerCase s)"
    then obtain x where "x \<in> set s" and "lower_char x = slash"
      by (auto simp: toLowerCase_def)
    then have "slash \<in> set s"
      by (simp add: lower_char_slash)
    with assms show False
      by (simp add: clean_segment_def)
  qed
  with assms show ?thesis
    by (simp add: clean_segment_def toLowerCase_def)
qed

lemma segments_prefix:
  assumes r: "\<forall>s \<in> set rl. s \<noteq> [] \<and> slash \<notin> set s"
    and p: "\<forall>s \<in> set pl. s \<noteq> [] \<and> slash \<notin> set s"
    and c: "''/'' @ join_slash pl = ''/'' @ join_slash rl
          \<or> prefix ((''/'' @ join_slash rl) @ ''/'') (''/'' @ join_slash pl)"
  shows "prefix rl pl"
proof (cases "rl = []")
  case True
  then show ?thesis by simp
next
  case False
  have jr: "join_slash rl \<noteq> []"
    using join_slash_Nil_iff [of rl] r False by auto
  have sr: "split_on slash (join_slash rl) = rl"
    using split_join_slash [of rl] r False by auto
  from c show ?thesis
  proof
    assume "''/'' @ join_slash pl = ''/'' @ join_slash rl"
    then have e: "join_slash pl = join_slash rl" by simp
    with jr have "pl \<noteq> []" by auto
    then have "split_on slash (join_slash pl) = pl"
      using split_join_slash [of pl] p by auto
    with e sr show ?thesis by simp
  next
    assume "prefix ((''/'' @ join_slash rl) @ ''/'') (''/'' @ join_slash pl)"
    then obtain rest where e: "join_slash pl = join_slash rl @ slash # rest"
      by (auto simp: prefix_def slash_def)
    then have "pl \<noteq> []" by auto
    then have "split_on slash (join_slash pl) = pl"
      using split_join_slash [of pl] p by auto
    then have "pl = rl @ split_on slash rest"
      unfolding e by (simp add: split_on_append sr)
    then show ?thesis by simp
  qed
qed


section \<open>Configuration model\<close>

text \<open>
  A location rule as \<open>buildNodeServerConfigFromAst\<close> builds it. The field \<open>regex\<close> holds the
  compiled \<open>RegExp\<close> of a regex rule (\<open>null\<close>, here \<open>None\<close>, otherwise); a compiled pattern is
  modelled by its \<open>test\<close> function. The patterns are compiled with the flags \<open>''\<close> or \<open>'i'\<close>
  only, and without the flags \<open>g\<close> and \<open>y\<close> the method \<open>test\<close> neither reads nor writes
  \<open>lastIndex\<close>: it is a function of the string alone.
\<close>

datatype location_kind = Exact | Prefix | Regex

record location =
  kind :: location_kind
  matcher :: string
  noRegex :: bool
  regex :: "(string \<Rightarrow> bool) option"
  proxyPass :: "string option"
  root :: "string option"
  tryFiles :: "string list option"

text \<open>
  The port of a configuration is a JavaScript Number as \<open>parseInt\<close> returns it for a string of
  decimal digits: a natural number or \<open>Infinity\<close>.
\<close>

datatype js_number = Number nat | Infinity

record server_config =
  listenPort :: js_number
  serverRoot :: string
  serverIndex :: "string list"
  locations :: "location list"

section \<open>AST query layer\<close>

fun is_block :: "node \<Rightarrow> bool" where
  "is_block (Block name args children) = True"
| "is_block (Directive name args) = False"

fun children_of :: "node \<Rightarrow> node list" where
  "children_of (Block name args children) = children"
| "children_of (Directive name args) = []"

definition findBlocks :: "node list \<Rightarrow> string \<Rightarrow> node list" where
  "findBlocks ast name = filter (\<lambda>node. is_block node \<and> node_name node = name) ast"

definition findDirectives :: "node list \<Rightarrow> string \<Rightarrow> node list" where
  "findDirectives ast name = filter (\<lambda>node. \<not> is_block node \<and> node_name node = name) ast"

section \<open>Config model builder\<close>

definition is_digit :: "char \<Rightarrow> bool" where
  "is_digit c \<longleftrightarrow> c \<in> set ''0123456789''"

definition decimal_value :: "string \<Rightarrow> nat" where
  "decimal_value ds = foldl (\<lambda>n c. 10 * n + (of_char c - 48)) 0 ds"

text \<open>The number of binary digits of a natural number.\<close>

fun bit_length :: "nat \<Rightarrow> nat" where
  "bit_length n = (if n = 0 then 0 else Suc (bit_length (n div 2)))"

declare bit_length.simps [simp del]

text \<open>
  The Number value of a natural number: the number itself below \<open>2^53\<close>; above, the nearest
  number with 53 significant binary digits, the one with the even last digit when two are
  equally near; \<open>Infinity\<close> when that is \<open>2^1024\<close> or more.
\<close>

definition number_of_nat :: "nat \<Rightarrow> js_number" where
  "number_of_nat n =
     (if n < 2 ^ 53 then Number n
      else
        let e = bit_length n - 53;
            q = n div 2 ^ e;
            r = n mod 2 ^ e;
            m = (if 2 ^ e < 2 * r \<or> (2 * r = 2 ^ e \<and> odd q) then q + 1 else q)
        in if m * 2 ^ e < 2 ^ 1024 then Number (m * 2 ^ e) else Infinity)"

text \<open>
  \<open>parseInt(s, 10)\<close> on a non-empty string of decimal digits, the only strings the two
  patterns of \<open>parseListenPort\<close> let through: the Number value of the decimal value. It is a
  double, so it is exact only below \<open>2^53\<close>.
\<close>

definition parseInt10 :: "string \<Rightarrow> js_number" where
  "parseInt10 ds = number_of_nat (decimal_value ds)"

text \<open>
  The match of \<open>/:(\d+)$/\<close>: the leftmost colon that is followed by digits only, at least one,
  up to the end of the string; the result is the group of digits.
\<close>

fun match_port_suffix :: "string \<Rightarrow> string option" where
  "match_port_suffix [] = None"
| "match_port_suffix (c # cs) =
     (if c = CHR '':'' \<and> cs \<noteq> [] \<and> list_all is_digit cs then Some cs
      else match_port_suffix cs)"

text \<open>The argument is \<open>None\<close> for \<open>undefined\<close> (no \<open>listen\<close> directive).\<close>

definition parseListenPort :: "string list option \<Rightarrow> js_number" where
  "parseListenPort args =
     (case args of
        None \<Rightarrow> Number 80
      | Some [] \<Rightarrow> Number 80
      | Some (s # rest) \<Rightarrow>
          (case match_port_suffix s of
             Some m \<Rightarrow> parseInt10 m
           | None \<Rightarrow> if s \<noteq> [] \<and> list_all is_digit s then parseInt10 s else Number 80))"

definition trim :: "string \<Rightarrow> string" where
  "trim s = rev (dropWhile is_space (rev (dropWhile is_space s)))"

definition parseIndexList :: "string list option \<Rightarrow> string list" where
  "parseIndexList args =
     (case args of
        None \<Rightarrow> [''index.html'', ''index.htm'']
      | Some [] \<Rightarrow> [''index.html'', ''index.htm'']
      | Some as \<Rightarrow> filter (\<lambda>s. s \<noteq> []) (map trim as))"

definition parseTryFiles :: "string list option \<Rightarrow> string list option" where
  "parseTryFiles args =
     (case args of
        None \<Rightarrow> None
      | Some [] \<Rightarrow> None
      | Some as \<Rightarrow>
          (let out = filter (\<lambda>s. s \<noteq> []) (map trim as)
           in if out \<noteq> [] then Some out else None))"

text \<open>
  \<open>new RegExp(pattern, flags)\<close> is library code: the parameter \<open>compile\<close> gives the \<open>test\<close>
  function of the compiled pattern, or \<open>None\<close> where the constructor throws a \<open>SyntaxError\<close>.
\<close>

type_synonym regex_compiler = "string \<Rightarrow> string \<Rightarrow> (string \<Rightarrow> bool) option"

datatype build_error = InvalidRegExp string

text \<open>\<open>xs[0]?.args\<close> and \<open>xs[0]?.args?.[0]\<close> for a list of nodes.\<close>

definition first_args :: "node list \<Rightarrow> string list option" where
  "first_args ds = (case ds of [] \<Rightarrow> None | d # rest \<Rightarrow> Some (node_args d))"

definition first_arg :: "node list \<Rightarrow> string option" where
  "first_arg ds =
     (case first_args ds of None \<Rightarrow> None | Some [] \<Rightarrow> None | Some (a # rest) \<Rightarrow> Some a)"

text \<open>\<open>args[i] || dflt\<close>: the default replaces a missing or empty argument.\<close>

definition arg_or :: "string list \<Rightarrow> nat \<Rightarrow> string \<Rightarrow> string" where
  "arg_or args i dflt = (if i < length args \<and> args ! i \<noteq> [] then args ! i else dflt)"

definition build_location :: "regex_compiler \<Rightarrow> node \<Rightarrow> build_error + location" where
  "build_location compile block =
     (let args = node_args block;
          modifier = arg_or args 0 [];
          (kind', matcherValue, flags, noRegex') =
            (if modifier = ''='' then (Exact, arg_or args 1 ''/'', [], False)
             else if modifier = ''~'' \<or> modifier = ''~*'' then
               (Regex, arg_or args 1 [], if modifier = ''~*'' then ''i'' else [], False)
             else if modifier = ''^~'' then (Prefix, arg_or args 1 ''/'', [], True)
             else (Prefix, arg_or args 0 ''/'', [], False));
          compiled =
            (if kind' = Regex then map_option Some (compile matcherValue flags) else Some None)
      in case compiled of
           None \<Rightarrow> Inl (InvalidRegExp matcherValue)
         | Some rx \<Rightarrow>
             Inr \<lparr>kind = kind', matcher = matcherValue, noRegex = noRegex', regex = rx,
                  proxyPass = first_arg (findDirectives (children_of block) ''proxy_pass''),
                  root = first_arg (findDirectives (children_of block) ''root''),
                  tryFiles = parseTryFiles (first_args (findDirectives (children_of block) ''try_files''))\<rparr>)"

fun build_locations :: "regex_compiler \<Rightarrow> node list \<Rightarrow> build_error + location list" where
  "build_locations compile [] = Inr []"
| "build_locations compile (block # blocks) =
     (case build_location compile block of
        Inl e \<Rightarrow> Inl e
      | Inr l \<Rightarrow>
          (case build_locations compile blocks of
             Inl e \<Rightarrow> Inl e
           | Inr ls \<Rightarrow> Inr (l # ls)))"

text \<open>
  The result is \<open>Inr None\<close> for \<open>null\<close> (no \<open>http\<close> or no \<open>server\<close> block), \<open>Inl\<close> for the
  exception of an invalid pattern, and the configuration otherwise.
\<close>

definition buildNodeServerConfigFromAst ::
    "regex_compiler \<Rightarrow> string \<Rightarrow> node list \<Rightarrow> string \<Rightarrow> string \<Rightarrow> build_error + server_config option" where
  "buildNodeServerConfigFromAst compile cwd ast configFilePath baseDir =
     (case findBlocks ast ''http'' of
        [] \<Rightarrow> Inr None
      | httpBlock # others \<Rightarrow>
          (case findBlocks (children_of httpBlock) ''server'' of
             [] \<Rightarrow> Inr None
           | server # others' \<Rightarrow>
               (let listenDir = findDirectives (children_of server) ''listen'';
                    serverRootDir = findDirectives (children_of server) ''root'';
                    serverIndexDir = findDirectives (children_of server) ''index'';
                    listenPort' = parseListenPort (first_args listenDir);
                    serverRoot' =
                      (case first_arg serverRootDir of
                         Some a \<Rightarrow> if a \<noteq> [] then resolve cwd [baseDir, a] else baseDir
                       | None \<Rightarrow> baseDir);
                    serverIndex' =
                      (if serverIndexDir \<noteq> [] then parseIndexList (first_args serverIndexDir)
                       else [''index.html'', ''index.htm''])
                in case build_locations compile (findBlocks (children_of server) ''location'') of
                     Inl e \<Rightarrow> Inl e
                   | Inr locs \<Rightarrow>
                       Inr (Some \<lparr>listenPort = listenPort', serverRoot = serverRoot',
                                  serverIndex = serverIndex', locations = locs\<rparr>))))"


text \<open>
  The port in the words of the specification: the trailing group of digits of the argument,
  when it is not empty and is the whole argument or follows a colon, read as a decimal number
  and turned into a Number; 80 otherwise.
\<close>

definition listen_value :: "string \<Rightarrow> js_number" where
  "listen_value a =
     (let port = rev (takeWhile is_digit (rev a));
          host = rev (dropWhile is_digit (rev a))
      in if port \<noteq> [] \<and> (host = [] \<or> last host = CHR '':'')
         then number_of_nat (decimal_value port) else Number 80)"

lemma number_of_nat_exact: "n < 2 ^ 53 \<Longrightarrow> number_of_nat n = Number n"
  by (simp add: number_of_nat_def)

text \<open>Above \<open>2^53\<close> the value is rounded to the nearest double, ties to the even one.\<close>

lemma parseInt10_rounds:
  "parseInt10 ''9007199254740993'' = Number 9007199254740992"
  "parseInt10 ''9007199254740995'' = Number 9007199254740996"
  "parseInt10 ''18014398509481987'' = Number 18014398509481988"
  by (simp_all add: parseInt10_def decimal_value_def number_of_nat_def bit_length.simps)

text \<open>From \<open>2^1024\<close> on, as for a very long group of digits, the value is \<open>Infinity\<close>.\<close>

lemma bit_length_bounds:
  "0 < n \<Longrightarrow> 2 ^ (bit_length n - 1) \<le> n \<and> n < 2 ^ bit_length n"
proof (induction n rule: bit_length.induct)
  case (1 n)
  show ?case
  proof (cases "n div 2 = 0")
    case True
    with 1(2) have "n = 1" by (simp add: div_eq_0_iff) 
    then show ?thesis
      by (simp add: bit_length.simps [of "Suc 0"] bit_length.simps [of 0])
  next
    case False
    with 1 have IH: "2 ^ (bit_length (n div 2) - 1) \<le> n div 2" "n div 2 < 2 ^ bit_length (n div 2)"
      by auto
    have pos: "0 < bit_length (n div 2)"
      using False by (simp add: bit_length.simps [of "n div 2"])
    have bl: "bit_length n = Suc (bit_length (n div 2))"
      using 1(2) by (simp add: bit_length.simps [of n])
    have "2 ^ (bit_length n - 1) = 2 * 2 ^ (bit_length (n div 2) - 1)"
      using pos bl by (cases "bit_length (n div 2)") simp_all
    also have "\<dots> \<le> 2 * (n div 2)"
      using IH(1) by simp
    also have "\<dots> \<le> n"
      by simp
    finally have lo: "2 ^ (bit_length n - 1) \<le> n" .
    have "n < 2 * (n div 2) + 2"
      by presburger
    also have "\<dots> \<le> 2 * 2 ^ bit_length (n div 2)"
      using IH(2) by simp
    finally have "n < 2 ^ bit_length n"
      by (simp add: bl)
    with lo show ?thesis by simp
  qed
qed

lemma round_down_large:
  assumes "2 ^ k \<le> n" and "52 < k"
  shows "2 ^ k \<le> (n div 2 ^ (bit_length n - 53)) * 2 ^ (bit_length n - 53)"
proof -
  define L where "L = bit_length n"
  define e where "e = L - 53"
  have pos: "0 < n"
    using assms(1) by (cases "n = 0") simp_all
  from bit_length_bounds [OF pos] have lo: "2 ^ (L - 1) \<le> n" and hi: "n < 2 ^ L"
    by (simp_all add: L_def)
  have "(2::nat) ^ k < 2 ^ L"
    using assms(1) hi by (rule le_less_trans)
  then have L: "k < L"
    by simp
  with assms(2) have Le: "L - 1 = 52 + e"
    by (simp add: e_def)
  have "2 ^ 52 * 2 ^ e \<le> n"
    using lo unfolding Le by (simp add: power_add)
  then have "2 ^ 52 \<le> n div 2 ^ e"
    by (simp add: less_eq_div_iff_mult_less_eq)
  then have "2 ^ 52 * 2 ^ e \<le> (n div 2 ^ e) * 2 ^ e"
    by simp
  moreover have "(2::nat) ^ k \<le> 2 ^ 52 * 2 ^ e"
  proof -
    have "k \<le> 52 + e" using L assms(2) by (simp add: e_def)
    then have "(2::nat) ^ k \<le> 2 ^ (52 + e)"
      by (rule power_increasing) simp
    then show ?thesis by (simp add: power_add)
  qed
  ultimately show ?thesis
    unfolding e_def L_def by (rule order_trans [rotated])
qed

lemma number_of_nat_overflow:
  assumes "2 ^ 1024 \<le> n"
  shows "number_of_nat n = Infinity"
proof -
  define A where "A = (2::nat) ^ 53"
  define B where "B = (2::nat) ^ 1024"
  define e where "e = bit_length n - 53"
  define q where "q = n div 2 ^ e"
  have AB: "A \<le> B"
    unfolding A_def B_def by (rule power_increasing) simp_all
  have Bn: "B \<le> n"
    unfolding B_def by (rule assms)
  have "B \<le> q * 2 ^ e"
    unfolding B_def q_def e_def by (rule round_down_large [OF assms]) simp
  then have v: "\<not> (if c then q + 1 else q) * 2 ^ e < B" for c
    by (cases c) (simp_all add: not_less add_mult_distrib)
  have "number_of_nat n =
      (if n < A then Number n
       else if (if 2 ^ e < 2 * (n mod 2 ^ e) \<or> (2 * (n mod 2 ^ e) = 2 ^ e \<and> odd q) then q + 1 else q) * 2 ^ e < B
            then Number ((if 2 ^ e < 2 * (n mod 2 ^ e) \<or> (2 * (n mod 2 ^ e) = 2 ^ e \<and> odd q) then q + 1 else q) * 2 ^ e)
            else Infinity)"
    unfolding number_of_nat_def Let_def A_def B_def q_def e_def ..
  also have "\<dots> = Infinity"
    using AB Bn v by (simp only: if_False not_less) (simp add: not_less)
  finally show ?thesis .
qed

lemma colon_not_digit: "\<not> is_digit (CHR '':'')"
  by (simp add: is_digit_def)

lemma match_port_suffix_intro:
  "m \<noteq> [] \<Longrightarrow> list_all is_digit m \<Longrightarrow> match_port_suffix (pre @ CHR '':'' # m) = Some m"
  by (induction pre) (auto simp: colon_not_digit)

lemma match_port_suffix_elim:
  "match_port_suffix s = Some m \<Longrightarrow> \<exists>pre. s = pre @ CHR '':'' # m \<and> m \<noteq> [] \<and> list_all is_digit m"
proof (induction s)
  case Nil
  then show ?case by simp
next
  case (Cons c cs)
  show ?case
  proof (cases "c = CHR '':'' \<and> cs \<noteq> [] \<and> list_all is_digit cs")
    case True
    with Cons.prems have "m = cs" by simp
    with True show ?thesis by (intro exI [of _ "[]"]) simp
  next
    case False
    with Cons.prems have "match_port_suffix cs = Some m" by auto
    from Cons.IH [OF this] obtain pre where "cs = pre @ CHR '':'' # m" "m \<noteq> []" "list_all is_digit m"
      by blast
    then show ?thesis by (intro exI [of _ "c # pre"]) simp
  qed
qed

lemma digits_split:
  "a = rev (dropWhile is_digit (rev a)) @ rev (takeWhile is_digit (rev a))"
  by (metis rev_append rev_rev_ident takeWhile_dropWhile_id)

lemma takeWhile_dropWhile_stop:
  "\<forall>c \<in> set xs. P c \<Longrightarrow> \<not> P y \<Longrightarrow>
   takeWhile P (xs @ y # ys) = xs \<and> dropWhile P (xs @ y # ys) = y # ys"
  by (induction xs) auto

lemma digit_suffix_of_append:
  "list_all is_digit m \<Longrightarrow>
   takeWhile is_digit (rev (pre @ CHR '':'' # m)) = rev m
   \<and> dropWhile is_digit (rev (pre @ CHR '':'' # m)) = CHR '':'' # rev pre"
  using takeWhile_dropWhile_stop [of "rev m" is_digit "CHR '':''" "rev pre"]
  by (simp add: list_all_iff colon_not_digit)

lemma parseListenPort_value: "parseListenPort (Some (a # rest)) = listen_value a"
proof (cases "match_port_suffix a")
  case (Some m)
  from match_port_suffix_elim [OF Some] obtain pre
    where a: "a = pre @ CHR '':'' # m" and m: "m \<noteq> []" "list_all is_digit m"
    by blast
  from digit_suffix_of_append [OF m(2), of pre] m(1) Some show ?thesis
    by (simp add: parseListenPort_def listen_value_def parseInt10_def a
        del: match_port_suffix.simps)
next
  case None
  define port where "port = rev (takeWhile is_digit (rev a))"
  define host where "host = rev (dropWhile is_digit (rev a))"
  have a: "a = host @ port"
    unfolding host_def port_def by (rule digits_split)
  have dp: "list_all is_digit port"
    unfolding port_def list_all_iff by (auto dest: set_takeWhileD)
  show ?thesis
  proof (cases "a \<noteq> [] \<and> list_all is_digit a")
    case True
    then have t: "takeWhile is_digit (rev a) = rev a" and d: "dropWhile is_digit (rev a) = []"
      by (simp_all add: list_all_iff)
    have "listen_value a = parseInt10 a"
      unfolding listen_value_def t d parseInt10_def using True by simp
    moreover have "parseListenPort (Some (a # rest)) = parseInt10 a"
      using True None by (simp add: parseListenPort_def)
    ultimately show ?thesis by simp
  next
    case False
    have "\<not> (port \<noteq> [] \<and> (host = [] \<or> last host = CHR '':''))"
    proof
      assume h: "port \<noteq> [] \<and> (host = [] \<or> last host = CHR '':'')"
      show False
      proof (cases "host = []")
        case True
        with a dp h False show False by simp
      next
        case ne: False
        with h have "host = butlast host @ [CHR '':'']"
          by (metis append_butlast_last_id)
        then have "a = butlast host @ CHR '':'' # port"
          using a by (metis append.assoc append_Cons append_Nil)
        with match_port_suffix_intro [of port "butlast host"] h dp None show False
          by simp
      qed
    qed
    then have "listen_value a = Number 80"
      unfolding listen_value_def port_def [symmetric] host_def [symmetric] Let_def
      by (simp only: if_False)
    moreover have "parseListenPort (Some (a # rest)) = Number 80"
      using False None by (auto simp: parseListenPort_def)
    ultimately show ?thesis by simp
  qed
qed

lemma parseListenPort_first_arg:
  "parseListenPort (first_args ds) =
     (case first_arg ds of None \<Rightarrow> Number 80 | Some a \<Rightarrow> listen_value a)"
  using parseListenPort_value
  by (auto simp: first_arg_def first_args_def parseListenPort_def split: list.splits option.splits
      simp del: match_port_suffix.simps)

section \<open>Location matcher\<close>

text \<open>
  \<open>Array.prototype.sort\<close> with a comparator is a stable sort: \<open>a\<close> stays in front of a later
  \<open>b\<close> unless the comparator is positive on \<open>(a, b)\<close>.
\<close>

fun insert_by :: "('a \<Rightarrow> 'a \<Rightarrow> int) \<Rightarrow> 'a \<Rightarrow> 'a list \<Rightarrow> 'a list" where
  "insert_by cmp x [] = [x]"
| "insert_by cmp x (y # ys) = (if cmp x y \<le> 0 then x # y # ys else y # insert_by cmp x ys)"

definition sort_by :: "('a \<Rightarrow> 'a \<Rightarrow> int) \<Rightarrow> 'a list \<Rightarrow> 'a list" where
  "sort_by cmp xs = foldr (insert_by cmp) xs []"

definition is_exact_match :: "string \<Rightarrow> location \<Rightarrow> bool" where
  "is_exact_match pathname l \<longleftrightarrow> kind l = Exact \<and> matcher l = pathname"

definition is_prefix_match :: "string \<Rightarrow> location \<Rightarrow> bool" where
  "is_prefix_match pathname l \<longleftrightarrow> kind l = Prefix \<and> prefix (matcher l) pathname"

definition is_regex_match :: "string \<Rightarrow> location \<Rightarrow> bool" where
  "is_regex_match pathname l \<longleftrightarrow>
     kind l = Regex \<and> (case regex l of None \<Rightarrow> False | Some r \<Rightarrow> r pathname)"

definition longer_first :: "location \<Rightarrow> location \<Rightarrow> int" where
  "longer_first a b = int (length (matcher b)) - int (length (matcher a))"

definition pickLocation :: "server_config \<Rightarrow> string \<Rightarrow> location option" where
  "pickLocation cfg pathname =
     (let exact = filter (is_exact_match pathname) (locations cfg)
      in if exact \<noteq> [] then Some (hd exact)
         else
           let prefixes = sort_by longer_first (filter (is_prefix_match pathname) (locations cfg));
               bestPrefix = (if prefixes \<noteq> [] then Some (hd prefixes) else None)
           in if (case bestPrefix of None \<Rightarrow> False | Some b \<Rightarrow> noRegex b) then bestPrefix
              else case find (is_regex_match pathname) (locations cfg) of
                     Some l \<Rightarrow> Some l
                   | None \<Rightarrow> bestPrefix)"

text \<open>
  The precedence rules in the words of the specification: the first exact rule; else the
  longest matching prefix rule, the first one among equally long ones, at once when it stops
  the search; else the first matching regex rule; else that prefix rule, if any.
\<close>

definition longest_prefix :: "location list \<Rightarrow> string \<Rightarrow> location option" where
  "longest_prefix locs pathname =
     (let candidates = filter (is_prefix_match pathname) locs
      in find (\<lambda>l. \<forall>c \<in> set candidates. length (matcher c) \<le> length (matcher l)) candidates)"

definition match_by_precedence :: "location list \<Rightarrow> string \<Rightarrow> location option" where
  "match_by_precedence locs pathname =
     (case find (is_exact_match pathname) locs of
        Some e \<Rightarrow> Some e
      | None \<Rightarrow>
          (case longest_prefix locs pathname of
             Some b \<Rightarrow>
               if noRegex b then Some b
               else (case find (is_regex_match pathname) locs of
                       Some r \<Rightarrow> Some r
                     | None \<Rightarrow> Some b)
           | None \<Rightarrow> find (is_regex_match pathname) locs))"

lemma find_filter_hd:
  "find P xs = (if filter P xs \<noteq> [] then Some (hd (filter P xs)) else None)"
  by (induction xs) auto

lemma sort_by_Nil_iff: "sort_by cmp xs = [] \<longleftrightarrow> xs = []"
proof -
  have "insert_by cmp x ys \<noteq> []" for x ys
    by (cases ys) auto
  then show ?thesis
    by (cases xs) (auto simp: sort_by_def)
qed

lemma hd_insert_by:
  "hd (insert_by cmp x ys) = (if ys = [] \<or> cmp x (hd ys) \<le> 0 then x else hd ys)"
  by (cases ys) auto

lemma hd_sort_by_Cons:
  "hd (sort_by cmp (x # xs)) =
     (if xs = [] \<or> cmp x (hd (sort_by cmp xs)) \<le> 0 then x else hd (sort_by cmp xs))"
proof -
  have "sort_by cmp (x # xs) = insert_by cmp x (sort_by cmp xs)"
    by (simp add: sort_by_def)
  then show ?thesis
    by (simp add: hd_insert_by sort_by_Nil_iff)
qed

lemma hd_sort_by_longest:
  "xs \<noteq> [] \<Longrightarrow>
   hd (sort_by longer_first xs) \<in> set xs
   \<and> (\<forall>c \<in> set xs. length (matcher c) \<le> length (matcher (hd (sort_by longer_first xs))))
   \<and> find (\<lambda>l. \<forall>c \<in> set xs. length (matcher c) \<le> length (matcher l)) xs
       = Some (hd (sort_by longer_first xs))"
proof (induction xs)
  case Nil
  then show ?case by simp
next
  case (Cons x xs)
  show ?case
  proof (cases "xs = []")
    case True
    then show ?thesis by (simp add: sort_by_def)
  next
    case False
    define b where "b = hd (sort_by longer_first xs)"
    from Cons.IH [OF False]
    have b_in: "b \<in> set xs"
      and b_max: "\<forall>c \<in> set xs. length (matcher c) \<le> length (matcher b)"
      and b_find: "find (\<lambda>l. \<forall>c \<in> set xs. length (matcher c) \<le> length (matcher l)) xs = Some b"
      by (simp_all add: b_def)
    have hd_eq: "hd (sort_by longer_first (x # xs)) =
        (if length (matcher b) \<le> length (matcher x) then x else b)"
      using False by (simp add: hd_sort_by_Cons b_def longer_first_def)
    show ?thesis
    proof (cases "length (matcher b) \<le> length (matcher x)")
      case True
      with b_max have "\<forall>c \<in> set (x # xs). length (matcher c) \<le> length (matcher x)"
        by auto
      with True hd_eq show ?thesis by simp
    next
      case less: False
      have not_x: "\<not> (\<forall>c \<in> set (x # xs). length (matcher c) \<le> length (matcher x))"
        using less b_in by auto
      have "find (\<lambda>l. \<forall>c \<in> set (x # xs). length (matcher c) \<le> length (matcher l)) xs
          = find (\<lambda>l. \<forall>c \<in> set xs. length (matcher c) \<le> length (matcher l)) xs"
      proof (rule find_cong [OF refl])
        fix l assume "l \<in> set xs"
        show "(\<forall>c \<in> set (x # xs). length (matcher c) \<le> length (matcher l))
            = (\<forall>c \<in> set xs. length (matcher c) \<le> length (matcher l))"
          using less b_in by fastforce
      qed
      with not_x b_find have "find (\<lambda>l. \<forall>c \<in> set (x # xs). length (matcher c) \<le> length (matcher l)) (x # xs) = Some b"
        by auto
      moreover have "\<forall>c \<in> set (x # xs). length (matcher c) \<le> length (matcher b)"
        using less b_max by auto
      ultimately show ?thesis
        using less hd_eq b_in by simp
    qed
  qed
qed

lemma longest_prefix_sort:
  "longest_prefix locs pathname =
     (let prefixes = sort_by longer_first (filter (is_prefix_match pathname) locs)
      in if prefixes \<noteq> [] then Some (hd prefixes) else None)"
proof (cases "filter (is_prefix_match pathname) locs = []")
  case True
  then show ?thesis
    by (simp add: longest_prefix_def sort_by_def)
next
  case False
  from hd_sort_by_longest [OF False] False show ?thesis
    by (simp add: longest_prefix_def Let_def sort_by_Nil_iff)
qed


section \<open>Static resolution and the request handler\<close>

text \<open>
  \<open>getWorkspaceRoot()\<close> reads the editor's state: its result is the parameter
  \<open>workspaceRoot\<close>, the empty string when no folder is open.
\<close>

definition resolvePathInWorkspace :: "string \<Rightarrow> string \<Rightarrow> string" where
  "resolvePathInWorkspace workspaceRoot maybePath =
     (let p = trim maybePath
      in if p = [] \<or> isAbsolute p then p
         else if workspaceRoot \<noteq> [] then join [workspaceRoot, p] else p)"

text \<open>\<open>loc?.root ? resolvePathInWorkspace(loc.root) : cfg.serverRoot\<close>\<close>

definition rootDir_of :: "string \<Rightarrow> string \<Rightarrow> location option \<Rightarrow> string" where
  "rootDir_of workspaceRoot serverRoot' loc =
     (case loc of
        None \<Rightarrow> serverRoot'
      | Some l \<Rightarrow>
          (case root l of
             None \<Rightarrow> serverRoot'
           | Some r \<Rightarrow> if r \<noteq> [] then resolvePathInWorkspace workspaceRoot r else serverRoot'))"

text \<open>
  The file system is a parameter: \<open>fs.promises.stat\<close> either rejects with an error or gives
  the kind of the file (\<open>isFile()\<close>, \<open>isDirectory()\<close>, or neither).
\<close>

datatype stat_error = ENOENT | EACCES | EIO

datatype stats = File | Directory | Other

type_synonym filesystem = "string \<Rightarrow> stat_error + stats"

text \<open>
  The loop over \<open>cfg.serverIndex\<close>: the first index path that is a regular file. A rejected
  \<open>stat\<close> is caught by the empty \<open>catch\<close> and the loop goes on.
\<close>

fun probe_index :: "filesystem \<Rightarrow> string \<Rightarrow> string list \<Rightarrow> string option" where
  "probe_index fs targetPath [] = None"
| "probe_index fs targetPath (idxName # rest) =
     (let idxPath = join [targetPath, idxName]
      in case fs idxPath of
           Inr File \<Rightarrow> Some idxPath
         | _ \<Rightarrow> probe_index fs targetPath rest)"

text \<open>The loop over \<open>loc.tryFiles\<close>, which both branches of the handler contain.\<close>

fun probe_try_files :: "filesystem \<Rightarrow> string \<Rightarrow> string list \<Rightarrow> string option" where
  "probe_try_files fs rootDir [] = None"
| "probe_try_files fs rootDir (tf # rest) =
     (if prefix ''/'' tf then
        (let tfPath = join [rootDir, tf]
         in case fs tfPath of
              Inr File \<Rightarrow> Some tfPath
            | _ \<Rightarrow> probe_try_files fs rootDir rest)
      else probe_try_files fs rootDir rest)"

text \<open>\<open>loc?.tryFiles\<close> followed by the loop: nothing is found without a rule or a list.\<close>

definition try_files_of :: "filesystem \<Rightarrow> string \<Rightarrow> location option \<Rightarrow> string option" where
  "try_files_of fs rootDir loc =
     (case loc of
        None \<Rightarrow> None
      | Some l \<Rightarrow>
          (case tryFiles l of
             None \<Rightarrow> None
           | Some tfs \<Rightarrow> probe_try_files fs rootDir tfs))"

text \<open>
  The responses of the handler: the mocked proxy answer (200), 403, 404 with its body, a
  served file (200; the content type and the streaming of the file are not modelled) and
  500.
\<close>

datatype response =
    Proxied string
  | Forbidden
  | NotFound string
  | FileServed string
  | ServerError

datatype log_line =
    RequestLine string string string
  | ProxyLine string
  | ErrorLine string

text \<open>
  The part of the handler after \<open>safeJoin\<close>: the \<open>try\<close> around the first \<open>stat\<close> with its
  \<open>catch\<close> branch.
\<close>

definition resolve_static ::
    "server_config \<Rightarrow> filesystem \<Rightarrow> location option \<Rightarrow> string \<Rightarrow> string \<Rightarrow> response" where
  "resolve_static cfg fs loc rootDir filePath =
     (case fs filePath of
        Inl err \<Rightarrow>
          (case try_files_of fs rootDir loc of
             Some tfPath \<Rightarrow> FileServed tfPath
           | None \<Rightarrow> NotFound ''404 Not Found'')
      | Inr st \<Rightarrow>
          if st = Directory then
            (case probe_index fs filePath (serverIndex cfg) of
               Some idxPath \<Rightarrow> FileServed idxPath
             | None \<Rightarrow>
                 (case try_files_of fs rootDir loc of
                    Some tfPath \<Rightarrow> FileServed tfPath
                  | None \<Rightarrow> NotFound ''404 Not Found (Directory index not found)''))
          else FileServed filePath)"

text \<open>
  The request handler. \<open>new URL(req.url, base)\<close> is library code that gives the path name or
  throws: the parameter \<open>parse_url\<close> returns the message of the exception on the left. The
  result is the lines appended to the output channel and the response.
\<close>

definition requestHandler ::
    "(string \<Rightarrow> string + string) \<Rightarrow> string \<Rightarrow> string \<Rightarrow> server_config \<Rightarrow> filesystem \<Rightarrow>
     string \<Rightarrow> string \<Rightarrow> log_line list \<times> response" where
  "requestHandler parse_url cwd workspaceRoot cfg fs reqMethod url =
     (case parse_url url of
        Inl message \<Rightarrow> ([ErrorLine message], ServerError)
      | Inr pathname \<Rightarrow>
          (let loc = pickLocation cfg pathname;
               matched = (case loc of
                            None \<Rightarrow> ''default''
                          | Some l \<Rightarrow> if matcher l \<noteq> [] then matcher l else ''default'');
               line = RequestLine reqMethod pathname matched;
               target = (case loc of None \<Rightarrow> None | Some l \<Rightarrow> proxyPass l)
           in if target \<noteq> None \<and> target \<noteq> Some [] then
                ([line, ProxyLine (the target)], Proxied (the target))
              else
                (let rootDir = rootDir_of workspaceRoot (serverRoot cfg) loc
                 in case safeJoin cwd rootDir pathname of
                      None \<Rightarrow> ([line], Forbidden)
                    | Some filePath \<Rightarrow> ([line], resolve_static cfg fs loc rootDir filePath))))"

section \<open>Routing on a store of arrays\<close>

text \<open>
  To state that routing mutates nothing, the arrays of location rules are placed in a store
  and addressed by their index. \<open>Array.prototype.filter\<close> allocates a new array;
  \<open>Array.prototype.sort\<close> sorts the array it is called on in place. \<open>pickLocation_store\<close> is
  \<open>pickLocation\<close> with its array operations on the store; it returns the store it leaves.
\<close>

type_synonym array_store = "location list list"

definition array_filter :: "(location \<Rightarrow> bool) \<Rightarrow> nat \<Rightarrow> array_store \<Rightarrow> nat \<times> array_store" where
  "array_filter P a store = (length store, store @ [filter P (store ! a)])"

definition array_sort ::
    "(location \<Rightarrow> location \<Rightarrow> int) \<Rightarrow> nat \<Rightarrow> array_store \<Rightarrow> array_store" where
  "array_sort cmp a store = store[a := sort_by cmp (store ! a)]"

definition pickLocation_store ::
    "nat \<Rightarrow> string \<Rightarrow> array_store \<Rightarrow> location option \<times> array_store" where
  "pickLocation_store locations_ref pathname store =
     (case array_filter (is_exact_match pathname) locations_ref store of
        (exact_ref, store1) \<Rightarrow>
          if store1 ! exact_ref \<noteq> [] then (Some (hd (store1 ! exact_ref)), store1)
          else
            (case array_filter (is_prefix_match pathname) locations_ref store1 of
               (prefixes_ref, store2) \<Rightarrow>
                 (let store3 = array_sort longer_first prefixes_ref store2;
                      bestPrefix =
                        (if store3 ! prefixes_ref \<noteq> [] then Some (hd (store3 ! prefixes_ref)) else None)
                  in if (case bestPrefix of None \<Rightarrow> False | Some b \<Rightarrow> noRegex b) then
                       (bestPrefix, store3)
                     else
                       (case find (is_regex_match pathname) (store3 ! locations_ref) of
                          Some l \<Rightarrow> (Some l, store3)
                        | None \<Rightarrow> (bestPrefix, store3)))))"

text \<open>
  The routing decision of one request: the matched rule and the result of \<open>safeJoin\<close>, as
  the handler computes them, on values and on the store.
\<close>

definition routing_decision ::
    "string \<Rightarrow> string \<Rightarrow> server_config \<Rightarrow> string \<Rightarrow> location option \<times> string option" where
  "routing_decision cwd workspaceRoot cfg pathname =
     (let loc = pickLocation cfg pathname
      in (loc, safeJoin cwd (rootDir_of workspaceRoot (serverRoot cfg) loc) pathname))"

definition routing_decision_store ::
    "string \<Rightarrow> string \<Rightarrow> string \<Rightarrow> nat \<Rightarrow> string \<Rightarrow> array_store \<Rightarrow>
     (location option \<times> string option) \<times> array_store" where
  "routing_decision_store cwd workspaceRoot serverRoot' locations_ref pathname store =
     (case pickLocation_store locations_ref pathname store of
        (loc, store') \<Rightarrow>
          ((loc, safeJoin cwd (rootDir_of workspaceRoot serverRoot' loc) pathname), store'))"


section \<open>Lemmas about the request handler and the store\<close>

lemma probe_index_find:
  "probe_index fs targetPath names =
     find (\<lambda>p. fs p = Inr File) (map (\<lambda>idxName. join [targetPath, idxName]) names)"
  by (induction names) (auto simp: Let_def split: sum.splits stats.splits)

lemma probe_try_files_find:
  "probe_try_files fs rootDir tfs =
     find (\<lambda>p. fs p = Inr File)
       (map (\<lambda>tf. join [rootDir, tf]) (filter (\<lambda>tf. prefix ''/'' tf) tfs))"
  by (induction tfs) (auto simp: Let_def split: sum.splits stats.splits)

text \<open>The file system in which every failing \<open>stat\<close> fails with "not found".\<close>

definition errors_as_missing :: "filesystem \<Rightarrow> filesystem" where
  "errors_as_missing fs = (\<lambda>p. case fs p of Inl err \<Rightarrow> Inl ENOENT | Inr st \<Rightarrow> Inr st)"

lemma errors_as_missing_File: "errors_as_missing fs p = Inr st \<longleftrightarrow> fs p = Inr st"
  by (simp add: errors_as_missing_def split: sum.splits)

lemma resolve_static_errors_as_missing:
  "resolve_static cfg (errors_as_missing fs) loc rootDir filePath
     = resolve_static cfg fs loc rootDir filePath"
proof -
  have f: "find (\<lambda>p. errors_as_missing fs p = Inr File) ps = find (\<lambda>p. fs p = Inr File) ps" for ps
    by (simp add: errors_as_missing_File)
  have t: "try_files_of (errors_as_missing fs) rootDir loc = try_files_of fs rootDir loc"
    by (simp add: try_files_of_def probe_try_files_find f split: option.splits)
  show ?thesis
  proof (cases "fs filePath")
    case (Inl err)
    then have "errors_as_missing fs filePath = Inl ENOENT"
      by (simp add: errors_as_missing_def)
    with Inl show ?thesis
      by (simp add: resolve_static_def t)
  next
    case (Inr st)
    then have "errors_as_missing fs filePath = Inr st"
      by (simp add: errors_as_missing_def)
    with Inr show ?thesis
      by (simp add: resolve_static_def t probe_index_find f cong: option.case_cong)
  qed
qed

lemma resolve_static_not_500: "resolve_static cfg fs loc rootDir filePath \<noteq> ServerError"
  by (simp add: resolve_static_def split: sum.splits option.splits)

lemma resolve_static_directory:
  assumes "fs filePath = Inr Directory"
  shows "resolve_static cfg fs loc rootDir filePath =
     (case find (\<lambda>p. fs p = Inr File) (map (\<lambda>idxName. join [filePath, idxName]) (serverIndex cfg)) of
        Some idxPath \<Rightarrow> FileServed idxPath
      | None \<Rightarrow>
          (case (case loc of None \<Rightarrow> None | Some l \<Rightarrow> tryFiles l) of
             None \<Rightarrow> NotFound ''404 Not Found (Directory index not found)''
           | Some tfs \<Rightarrow>
               (case find (\<lambda>p. fs p = Inr File)
                       (map (\<lambda>tf. join [rootDir, tf]) (filter (\<lambda>tf. prefix ''/'' tf) tfs)) of
                  Some tfPath \<Rightarrow> FileServed tfPath
                | None \<Rightarrow> NotFound ''404 Not Found (Directory index not found)'')))"
  using assms
  by (simp add: resolve_static_def try_files_of_def probe_index_find probe_try_files_find
      split: option.splits)

lemma requestHandler_static:
  assumes "parse_url url = Inr pathname"
    and "(case pickLocation cfg pathname of None \<Rightarrow> None | Some l \<Rightarrow> proxyPass l) \<in> {None, Some []}"
    and "safeJoin cwd (rootDir_of workspaceRoot (serverRoot cfg) (pickLocation cfg pathname)) pathname
          = Some filePath"
  shows "snd (requestHandler parse_url cwd workspaceRoot cfg fs reqMethod url)
      = resolve_static cfg fs (pickLocation cfg pathname)
          (rootDir_of workspaceRoot (serverRoot cfg) (pickLocation cfg pathname)) filePath"
  using assms unfolding requestHandler_def
  by (auto simp: Let_def)

lemma array_store_frame:
  assumes "a < length store"
  shows "fst (pickLocation_store a pathname store)
           = pickLocation \<lparr>listenPort = port, serverRoot = sr, serverIndex = idx,
                            locations = store ! a\<rparr> pathname"
    and "take (length store) (snd (pickLocation_store a pathname store)) = store"
    and "length store \<le> length (snd (pickLocation_store a pathname store))"
proof -
  let ?e = "filter (is_exact_match pathname) (store ! a)"
  let ?p = "filter (is_prefix_match pathname) (store ! a)"
  have f1: "array_filter (is_exact_match pathname) a store = (length store, store @ [?e])"
    by (simp add: array_filter_def)
  have f2: "array_filter (is_prefix_match pathname) a (store @ [?e])
      = (Suc (length store), store @ [?e, ?p])"
    using assms by (simp add: array_filter_def nth_append)
  have s3: "array_sort longer_first (Suc (length store)) (store @ [?e, ?p])
      = store @ [?e, sort_by longer_first ?p]"
    by (simp add: array_sort_def nth_append list_update_append)
  have n3: "(store @ [?e, sort_by longer_first ?p]) ! Suc (length store) = sort_by longer_first ?p"
    "(store @ [?e, sort_by longer_first ?p]) ! a = store ! a"
    "(store @ [?e]) ! length store = ?e"
    using assms by (simp_all add: nth_append)
  have unfold: "pickLocation_store a pathname store =
     (if ?e \<noteq> [] then (Some (hd ?e), store @ [?e])
      else
        (let bestPrefix = (if sort_by longer_first ?p \<noteq> [] then Some (hd (sort_by longer_first ?p)) else None)
         in if (case bestPrefix of None \<Rightarrow> False | Some b \<Rightarrow> noRegex b) then
              (bestPrefix, store @ [?e, sort_by longer_first ?p])
            else
              (case find (is_regex_match pathname) (store ! a) of
                 Some l \<Rightarrow> (Some l, store @ [?e, sort_by longer_first ?p])
               | None \<Rightarrow> (bestPrefix, store @ [?e, sort_by longer_first ?p]))))"
    unfolding pickLocation_store_def f1 prod.case f2 s3 Let_def n3 ..
  show "fst (pickLocation_store a pathname store)
           = pickLocation \<lparr>listenPort = port, serverRoot = sr, serverIndex = idx,
                            locations = store ! a\<rparr> pathname"
    unfolding unfold pickLocation_def
    by (simp add: Let_def split: option.splits)
  show "take (length store) (snd (pickLocation_store a pathname store)) = store"
    unfolding unfold by (simp add: Let_def split: option.splits)
  show "length store \<le> length (snd (pickLocation_store a pathname store))"
    unfolding unfold by (simp add: Let_def split: option.splits)
qed



section \<open>Example inputs\<close>

text \<open>A pattern compiler that rejects every pattern, for configurations without regex rules.\<close>

definition no_patterns :: regex_compiler where
  "no_patterns pattern flags = None"

text \<open>A file system on which every probe fails with "permission denied".\<close>

definition denied_fs :: filesystem where
  "denied_fs p = Inl EACCES"

text \<open>A file system with the directory \<open>/srv/docs\<close> and the file \<open>/srv/app.html\<close>.\<close>

definition docs_fs :: filesystem where
  "docs_fs p =
     (if p = ''/srv/docs'' then Inr Directory
      else if p = ''/srv/app.html'' then Inr File
      else Inl ENOENT)"

section \<open>Verified properties of the tokenizer\<close>

text \<open>
  C4 (as stated, refuted). The claim says that a \<open>#\<close> outside a quoted token discards the
  pending bare word. The source calls \<open>pushCurrent()\<close> first, so the pending word is emitted:
  the text \<open>abc#x\<close> tokenizes to the single token \<open>abc\<close>.
\<close>

theorem tokenizer_comment_keeps_pending_counterexample:
  "tokenizeNginxConf ''abc#x'' = [''abc'']"
  by (simp add: tokenizeNginxConf_def pushCurrent_def dquote_def squote_def newline_def is_space_def)

text \<open>
  C4 (amended). In every state of the scan outside a quoted token, a \<open>#\<close> ends the pending
  bare word and emits it as a token (nothing is emitted when no word is pending), then all
  characters up to the next line feed or the end of the input are skipped and the scan goes
  on from there with an empty pending word.
\<close>

theorem tokenizer_comment_emits_pending:
  "tokenize_loop tokens current None (CHR ''#'' # rest) =
     pushCurrent tokens current @ tokenize_loop [] [] None (dropWhile (\<lambda>c. c \<noteq> newline) rest)"
proof -
  have "tokenize_loop tokens current None (CHR ''#'' # rest) =
        tokenize_loop (pushCurrent tokens current @ []) [] None (skip_comment rest)"
    by (simp add: dquote_def squote_def newline_def)
  also have "\<dots> = pushCurrent tokens current @ tokenize_loop [] [] None (skip_comment rest)"
    by (rule tokenize_loop_append)
  finally show ?thesis
    by (simp add: skip_comment_dropWhile)
qed



section \<open>Verified properties of the structural parser\<close>

text \<open>
  C6 (as stated, refuted). The claim says that at end-of-input a final group without any
  terminator is still part of the result. The source pushes a group only at \<open>;\<close>, \<open>{\<close> or
  \<open>}\<close>: in \<open>server { listen 80\<close> the group \<open>listen 80\<close> is dropped and the block has no
  children.
\<close>

theorem parser_drops_unterminated_group_counterexample:
  "parseNginxTokens [''server'', ''{'', ''listen'', ''80''] = [Block ''server'' [] []]"
  by (simp add: parseNginxTokens_def is_terminator_def)

text \<open>
  C6 (amended). The parser is a total function of the token sequence with no error result,
  and it never moves backwards (the remaining tokens are never more than the given ones).
  For a non-empty group \<open>g\<close> of tokens without terminator: in front of a closing \<open>}\<close> the
  group is emitted as a Directive and the level is closed; a block that is still open at
  end-of-input is emitted with the children collected so far; a final group with no
  terminator at all is dropped.
\<close>

theorem parser_total_lenient:
  assumes "g \<noteq> []" and "list_all (\<lambda>t. \<not> is_terminator t) g"
  shows "length (snd (parseBlock ts)) \<le> length ts
    \<and> parseBlock (g @ ''}'' # rest) = ([Directive (hd g) (tl g)], rest)
    \<and> (''}'' \<notin> set body \<longrightarrow>
         parseBlock (g @ ''{'' # body) = ([Block (hd g) (tl g) (fst (parseBlock body))], []))
    \<and> parseBlock g = ([], [])"
proof -
  have t1: "is_terminator ''}''" and t2: "is_terminator ''{''"
    by (simp_all add: is_terminator_def)
  have "parseBlock (g @ ''}'' # rest) = ([Directive (hd g) (tl g)], rest)"
    using parseBlock_group(2) [OF assms t1, of rest] by simp
  moreover have "parseBlock (g @ ''{'' # body) = ([Block (hd g) (tl g) (fst (parseBlock body))], [])"
    if "''}'' \<notin> set body"
    using parseBlock_group(2) [OF assms t2, of body] parseBlock_unclosed [OF that] by simp
  ultimately show ?thesis
    using parseBlock_consumes [of ts] parseBlock_group(1) [OF assms] by blast
qed

theorem parser_total_lenient_witness:
  "parseBlock [''listen'', ''80'', ''}'', ''x''] = ([Directive ''listen'' [''80'']], [''x''])
   \<and> parseBlock [''server'', ''{'', ''root'', ''/srv'', '';''] =
       ([Block ''server'' [] [Directive ''root'' [''/srv'']]], [])
   \<and> parseBlock [''listen'', ''80''] = ([], [])"
proof -
  have "parseBlock [''root'', ''/srv'', '';''] = ([Directive ''root'' [''/srv'']], [])"
    by (simp add: is_terminator_def)
  then show ?thesis
    using parser_total_lenient [of "[''listen'', ''80'']" "[]" "[''x'']" "[]"]
      parser_total_lenient [of "[''server'']" "[]" "[]" "[''root'', ''/srv'', '';'']"]
    by (simp add: is_terminator_def)
qed

section \<open>Verified properties of the safe path resolver\<close>

text \<open>
  C1. Whatever the document root and the request path, \<open>safeJoin\<close> returns \<open>null\<close> or a path
  that lies within the root. Compared in lower case, the path is the resolved root or begins
  with the resolved root followed by the separator. With an absolute working directory (as
  \<open>process.cwd()\<close> always is) the path is absolute and in normal form, as the resolved root
  is: a \<open>/\<close> followed by segments none of which is empty, \<open>.\<close> or \<open>..\<close>; and the segments of
  the root, in lower case, are the first segments of the path. So no \<open>..\<close> is left in the
  path that could lead out of the root again.
\<close>

theorem safeJoin_within_root:
  assumes "safeJoin cwd rootDir requestPath = Some p"
  shows "(toLowerCase p = toLowerCase (resolve cwd [rootDir])
       \<or> prefix (toLowerCase (resolve cwd [rootDir]) @ sep) (toLowerCase p))
    \<and> (isAbsolute cwd \<longrightarrow>
         isAbsolute p
       \<and> (\<exists>rootSegs segs.
             resolve cwd [rootDir] = ''/'' @ join_slash rootSegs
           \<and> p = ''/'' @ join_slash segs
           \<and> list_all clean_segment rootSegs
           \<and> list_all clean_segment segs
           \<and> prefix (map toLowerCase rootSegs) (map toLowerCase segs)))"
proof -
  define withoutLeading where "withoutLeading =
    dropWhile (\<lambda>c. c = slash)
      (normalize (map (\<lambda>c. if c = backslash then slash else c)
         (if requestPath = [] then ''/'' else requestPath)))"
  define candidate where "candidate = resolve cwd [rootDir, withoutLeading]"
  have "(if toLowerCase candidate = toLowerCase (resolve cwd [rootDir])
            \<or> prefix (toLowerCase (resolve cwd [rootDir]) @ sep) (toLowerCase candidate)
         then Some candidate else None) = Some p"
    using assms unfolding safeJoin_unfold Let_def candidate_def withoutLeading_def .
  then have p: "p = candidate"
    and c: "toLowerCase p = toLowerCase (resolve cwd [rootDir])
       \<or> prefix (toLowerCase (resolve cwd [rootDir]) @ sep) (toLowerCase p)"
    by (simp_all split: if_splits)
  have "isAbsolute p \<and> (\<exists>rootSegs segs.
             resolve cwd [rootDir] = ''/'' @ join_slash rootSegs
           \<and> p = ''/'' @ join_slash segs
           \<and> list_all clean_segment rootSegs
           \<and> list_all clean_segment segs
           \<and> prefix (map toLowerCase rootSegs) (map toLowerCase segs))"
    if abs: "isAbsolute cwd"
  proof -
    have a: "isAbsolute p"
      unfolding p candidate_def using abs by (rule resolve_absolute)
    from resolve_normal [OF abs, of "[rootDir]"] obtain rootSegs
      where rs: "resolve cwd [rootDir] = ''/'' @ join_slash rootSegs"
        and rc: "list_all clean_segment rootSegs"
      by blast
    from resolve_normal [OF abs, of "[rootDir, withoutLeading]"] obtain segs
      where ps: "p = ''/'' @ join_slash segs" and pc: "list_all clean_segment segs"
      unfolding p candidate_def by blast
    have lr: "toLowerCase (resolve cwd [rootDir]) = ''/'' @ join_slash (map toLowerCase rootSegs)"
      unfolding rs by (simp add: toLowerCase_slash toLowerCase_join_slash)
    have lp: "toLowerCase p = ''/'' @ join_slash (map toLowerCase segs)"
      unfolding ps by (simp add: toLowerCase_slash toLowerCase_join_slash)
    have "prefix (map toLowerCase rootSegs) (map toLowerCase segs)"
    proof (rule segments_prefix)
      show "\<forall>s \<in> set (map toLowerCase rootSegs). s \<noteq> [] \<and> slash \<notin> set s"
        using rc toLowerCase_segment by (auto simp: list_all_iff)
      show "\<forall>s \<in> set (map toLowerCase segs). s \<noteq> [] \<and> slash \<notin> set s"
        using pc toLowerCase_segment by (auto simp: list_all_iff)
      show "''/'' @ join_slash (map toLowerCase segs) = ''/'' @ join_slash (map toLowerCase rootSegs)
          \<or> prefix ((''/'' @ join_slash (map toLowerCase rootSegs)) @ ''/'')
               (''/'' @ join_slash (map toLowerCase segs))"
        using c unfolding lr lp sep_def .
    qed
    with a rs ps rc pc show ?thesis
      by blast
  qed
  with c show ?thesis
    by blast
qed

theorem safeJoin_within_root_witness:
  "safeJoin ''/'' ''/srv/www'' ''/Index.html'' = Some ''/srv/www/Index.html''
   \<and> isAbsolute ''/srv/www/Index.html''
   \<and> prefix (toLowerCase (resolve ''/'' [''/srv/www'']) @ sep) (toLowerCase ''/srv/www/Index.html'')
   \<and> (\<exists>rootSegs segs.
          resolve ''/'' [''/srv/www''] = ''/'' @ join_slash rootSegs
        \<and> ''/srv/www/Index.html'' = ''/'' @ join_slash segs
        \<and> list_all clean_segment rootSegs
        \<and> list_all clean_segment segs
        \<and> prefix (map toLowerCase rootSegs) (map toLowerCase segs))"
proof -
  have s: "safeJoin ''/'' ''/srv/www'' ''/Index.html'' = Some ''/srv/www/Index.html''"
    by (simp add: safeJoin_def normalize_def resolve_def normalizeString_def norm_segments_def
      norm_step_def slash_def backslash_def toLowerCase_def lower_char_def sep_def isAbsolute_def)
  have a: "isAbsolute ''/''"
    by (simp add: isAbsolute_def slash_def)
  have n: "toLowerCase ''/srv/www/Index.html'' \<noteq> toLowerCase (resolve ''/'' [''/srv/www''])"
    by (simp add: resolve_def normalizeString_def norm_segments_def
      norm_step_def slash_def toLowerCase_def lower_char_def)
  from safeJoin_within_root [OF s] a n s show ?thesis
    by blast
qed

text \<open>
  C3 (as stated, refuted). The claim says that the request path \<open>/../../etc/passwd\<close> is
  rejected against any root. The path is normalised to \<open>/etc/passwd\<close> first, so against the
  root \<open>/srv/www\<close> the result is the path \<open>/srv/www/etc/passwd\<close>, not \<open>null\<close>.
\<close>

theorem safeJoin_traversal_counterexample:
  "safeJoin ''/'' ''/srv/www'' ''/../../etc/passwd'' = Some ''/srv/www/etc/passwd''"
  by (simp add: safeJoin_def normalize_etc resolve_def normalizeString_def norm_segments_def
      norm_step_def slash_def backslash_def toLowerCase_def lower_char_def sep_def)


text \<open>
  C3 (amended). For every document root whose resolved form is not the file system root
  \<open>/\<close>, \<open>safeJoin\<close> applied to \<open>/../../etc/passwd\<close> does not reject: the \<open>..\<close> segments are
  collapsed at the start of the request path and the result is the path \<open>etc/passwd\<close> below
  the resolved root.
\<close>

theorem safeJoin_traversal_clamped:
  assumes "isAbsolute cwd" and "resolve cwd [rootDir] \<noteq> ''/''"
  shows "safeJoin cwd rootDir ''/../../etc/passwd'' = Some (resolve cwd [rootDir] @ ''/etc/passwd'')"
proof -
  have w: "dropWhile (\<lambda>c. c = slash)
             (normalize (map (\<lambda>c. if c = backslash then slash else c)
                (if ''/../../etc/passwd'' = [] then ''/'' else ''/../../etc/passwd''))) = ''etc/passwd''"
    by (simp add: backslash_def normalize_etc) (simp add: slash_def)
  have p: "prefix (toLowerCase (resolve cwd [rootDir]) @ sep)
      (toLowerCase (resolve cwd [rootDir] @ ''/etc/passwd''))"
    by (simp add: toLowerCase_append lower_etc sep_def)
  show ?thesis
    unfolding safeJoin_unfold w resolve_under_root [OF assms] Let_def
    using p by simp
qed

theorem safeJoin_traversal_clamped_witness:
  "safeJoin ''/'' ''/srv/www'' ''/../../etc/passwd'' = Some (''/srv/www'' @ ''/etc/passwd'')"
proof -
  have r: "resolve ''/'' [''/srv/www''] = ''/srv/www''"
    by (simp add: resolve_def normalizeString_def norm_segments_def norm_step_def slash_def)
  have "isAbsolute ''/''"
    by (simp add: isAbsolute_def slash_def)
  from safeJoin_traversal_clamped [OF this, of "''/srv/www''"] r show ?thesis
    by simp
qed

section \<open>Verified properties of the location matcher\<close>

text \<open>
  C2. For every configuration and request path, \<open>pickLocation\<close> returns the rule that the
  precedence rules name: the first exact rule equal to the path; otherwise the longest
  prefix rule that is a prefix of the path (the first one among equally long ones), at once
  when its \<open>noRegex\<close> flag is set; otherwise the first regex rule that matches; otherwise
  that prefix rule, or nothing when there is none.
\<close>

theorem pickLocation_precedence:
  "pickLocation cfg pathname = match_by_precedence (locations cfg) pathname"
  unfolding pickLocation_def match_by_precedence_def longest_prefix_sort
  by (simp add: find_filter_hd [of "is_exact_match pathname"] Let_def sort_by_Nil_iff
      split: option.splits)

theorem pickLocation_precedence_witness:
  "pickLocation
     \<lparr>listenPort = Number 80, serverRoot = ''/srv'', serverIndex = [''index.html''],
      locations =
        [\<lparr>kind = Prefix, matcher = ''/'', noRegex = False, regex = None,
          proxyPass = None, root = None, tryFiles = None\<rparr>,
         \<lparr>kind = Prefix, matcher = ''/api'', noRegex = True, regex = None,
          proxyPass = None, root = None, tryFiles = None\<rparr>,
         \<lparr>kind = Regex, matcher = ''.png$'', noRegex = False, regex = Some (suffix ''.png''),
          proxyPass = None, root = None, tryFiles = None\<rparr>]\<rparr>
     ''/api/x.png''
   = Some \<lparr>kind = Prefix, matcher = ''/api'', noRegex = True, regex = None,
            proxyPass = None, root = None, tryFiles = None\<rparr>"
  by (simp add: pickLocation_precedence match_by_precedence_def longest_prefix_def
      is_exact_match_def is_prefix_match_def is_regex_match_def)

section \<open>Verified properties of the config model builder\<close>

text \<open>
  C5 (as stated, refuted). The claim says that the port of a built configuration lies between
  1 and 65535. \<open>parseListenPort\<close> checks no range: \<open>listen 70000\<close> gives the port 70000 and
  \<open>listen 0\<close> gives the port 0.
\<close>

theorem listenPort_unchecked_counterexample:
  "map_sum id (map_option listenPort)
     (buildNodeServerConfigFromAst no_patterns ''/''
        [Block ''http'' [] [Block ''server'' [] [Directive ''listen'' [''70000'']]]]
        ''nginx.conf'' ''/srv'') = Inr (Some (Number 70000))
   \<and> map_sum id (map_option listenPort)
     (buildNodeServerConfigFromAst no_patterns ''/''
        [Block ''http'' [] [Block ''server'' [] [Directive ''listen'' [''0'']]]]
        ''nginx.conf'' ''/srv'') = Inr (Some (Number 0))"
  by (simp add: buildNodeServerConfigFromAst_def findBlocks_def findDirectives_def first_args_def
      first_arg_def parseListenPort_def is_digit_def parseInt10_def decimal_value_def
      number_of_nat_def)

text \<open>
  C5 (amended). For every AST from which a configuration is built, the port is the Number
  that \<open>parseInt\<close> gives for the first argument of the first \<open>listen\<close> directive of the first
  server block: the Number value of the decimal number written by its trailing group of
  digits, when that group is not empty and is the whole argument or follows a colon, and 80
  otherwise (also without a \<open>listen\<close> directive or argument). The Number value of a decimal
  number below \<open>2^53\<close> is that number; above it is the nearest double, or \<open>Infinity\<close>. No
  range is enforced.
\<close>

theorem listenPort_from_listen:
  assumes "buildNodeServerConfigFromAst compile cwd ast configFilePath baseDir = Inr (Some cfg)"
  shows "findBlocks ast ''http'' \<noteq> []
    \<and> findBlocks (children_of (hd (findBlocks ast ''http''))) ''server'' \<noteq> []
    \<and> listenPort cfg =
        (case first_arg
                (findDirectives
                   (children_of (hd (findBlocks (children_of (hd (findBlocks ast ''http''))) ''server'')))
                   ''listen'') of
           None \<Rightarrow> Number 80
         | Some a \<Rightarrow> listen_value a)
    \<and> (\<forall>n < 2 ^ 53. number_of_nat n = Number n)"
  using assms
  by (auto simp: buildNodeServerConfigFromAst_def Let_def parseListenPort_first_arg
      number_of_nat_exact split: list.splits sum.splits)

theorem listenPort_from_listen_witness:
  "listenPort \<lparr>listenPort = Number 70000, serverRoot = ''/srv'',
               serverIndex = [''index.html'', ''index.htm''], locations = []\<rparr>
     = listen_value ''70000''
   \<and> number_of_nat 70000 = Number 70000"
proof -
  have "buildNodeServerConfigFromAst no_patterns ''/''
        [Block ''http'' [] [Block ''server'' [] [Directive ''listen'' [''70000'']]]]
        ''nginx.conf'' ''/srv''
      = Inr (Some \<lparr>listenPort = Number 70000, serverRoot = ''/srv'',
                    serverIndex = [''index.html'', ''index.htm''], locations = []\<rparr>)"
    by (simp add: buildNodeServerConfigFromAst_def findBlocks_def findDirectives_def first_args_def
      first_arg_def parseListenPort_def is_digit_def parseInt10_def decimal_value_def
      number_of_nat_def)
  from listenPort_from_listen [OF this] show ?thesis
    by (simp add: findBlocks_def findDirectives_def first_arg_def first_args_def)
qed

section \<open>Verified properties of the request handler\<close>

text \<open>
  C7. For a request that is not proxied and whose candidate path is a directory, the handler
  probes the index names in order, each joined onto the directory, and serves the first that
  is a regular file; if there is none and the matched rule has \<open>try_files\<close>, it probes the
  entries that begin with \<open>/\<close> only, each joined onto the root in effect for the rule, in
  order, and serves the first regular file; otherwise the response is 404.
\<close>

theorem directory_fallback:
  assumes "parse_url url = Inr pathname"
    and "loc = pickLocation cfg pathname"
    and "(case loc of None \<Rightarrow> None | Some l \<Rightarrow> proxyPass l) \<in> {None, Some []}"
    and "rootDir = rootDir_of workspaceRoot (serverRoot cfg) loc"
    and "safeJoin cwd rootDir pathname = Some filePath"
    and "fs filePath = Inr Directory"
  shows "snd (requestHandler parse_url cwd workspaceRoot cfg fs reqMethod url) =
     (case find (\<lambda>p. fs p = Inr File) (map (\<lambda>idxName. join [filePath, idxName]) (serverIndex cfg)) of
        Some idxPath \<Rightarrow> FileServed idxPath
      | None \<Rightarrow>
          (case (case loc of None \<Rightarrow> None | Some l \<Rightarrow> tryFiles l) of
             None \<Rightarrow> NotFound ''404 Not Found (Directory index not found)''
           | Some tfs \<Rightarrow>
               (case find (\<lambda>p. fs p = Inr File)
                       (map (\<lambda>tf. join [rootDir, tf]) (filter (\<lambda>tf. prefix ''/'' tf) tfs)) of
                  Some tfPath \<Rightarrow> FileServed tfPath
                | None \<Rightarrow> NotFound ''404 Not Found (Directory index not found)'')))"
proof -
  have p: "(case pickLocation cfg pathname of None \<Rightarrow> None | Some l \<Rightarrow> proxyPass l) \<in> {None, Some []}"
    using assms(3) unfolding assms(2) .
  have s: "safeJoin cwd (rootDir_of workspaceRoot (serverRoot cfg) (pickLocation cfg pathname)) pathname
          = Some filePath"
    using assms(5) unfolding assms(4) assms(2) .
  have "snd (requestHandler parse_url cwd workspaceRoot cfg fs reqMethod url)
      = resolve_static cfg fs loc rootDir filePath"
    unfolding assms(4) assms(2)
    by (rule requestHandler_static [where parse_url = parse_url and url = url, OF assms(1) p s])
  then show ?thesis
    by (simp only: resolve_static_directory [where fs = fs and filePath = filePath, OF assms(6)])
qed

theorem directory_fallback_witness:
  "snd (requestHandler Inr ''/'' []
     \<lparr>listenPort = Number 80, serverRoot = ''/srv'', serverIndex = [''index.html''],
      locations = [\<lparr>kind = Prefix, matcher = ''/'', noRegex = False, regex = None,
                    proxyPass = None, root = None,
                    tryFiles = Some [''fallback.html'', ''/app.html'']\<rparr>]\<rparr>
     docs_fs ''GET'' ''/docs'')
   = FileServed ''/srv/app.html''"
proof -
  define rule where "rule = \<lparr>kind = Prefix, matcher = ''/'', noRegex = False, regex = None,
                    proxyPass = None, root = None,
                    tryFiles = Some [''fallback.html'', ''/app.html'']\<rparr>"
  define cfg where "cfg = \<lparr>listenPort = Number 80, serverRoot = ''/srv'', serverIndex = [''index.html''],
      locations = [rule]\<rparr>"
  have loc: "Some rule = pickLocation cfg ''/docs''"
    by (simp add: pickLocation_def cfg_def rule_def is_exact_match_def is_prefix_match_def
        is_regex_match_def sort_by_def)
  have proxy: "(case Some rule of None \<Rightarrow> None | Some l \<Rightarrow> proxyPass l) \<in> {None, Some []}"
    by (simp add: rule_def)
  have rootDir: "''/srv'' = rootDir_of [] (serverRoot cfg) (Some rule)"
    by (simp add: rootDir_of_def cfg_def rule_def)
  have sj: "safeJoin ''/'' ''/srv'' ''/docs'' = Some ''/srv/docs''"
    by (simp add: safeJoin_def normalize_def resolve_def normalizeString_def norm_segments_def
      norm_step_def slash_def backslash_def toLowerCase_def lower_char_def sep_def isAbsolute_def)
  have dir: "docs_fs ''/srv/docs'' = Inr Directory"
    by (simp add: docs_fs_def)
  have j1: "join [''/srv/docs'', ''index.html''] = ''/srv/docs/index.html''"
    and j2: "join [''/srv'', ''/app.html''] = ''/srv/app.html''"
    by (simp_all add: join_def normalize_def normalizeString_def norm_segments_def
      norm_step_def slash_def isAbsolute_def)
  from directory_fallback [where parse_url = Inr and url = "''/docs''" and reqMethod = "''GET''"
        and pathname = "''/docs''" and cfg = cfg and loc = "Some rule" and rootDir = "''/srv''"
        and workspaceRoot = "[]" and cwd = "''/''" and filePath = "''/srv/docs''" and fs = docs_fs,
      OF refl loc proxy rootDir sj dir]
  have "snd (requestHandler Inr ''/'' [] cfg docs_fs ''GET'' ''/docs'') = FileServed ''/srv/app.html''"
    by (simp add: j1 j2 cfg_def rule_def docs_fs_def)
  then show ?thesis
    by (simp add: cfg_def rule_def)
qed

text \<open>
  C8 (as stated, refuted). The claim says that a probe failing with an error other than
  "not found" gives a 500 response and a log entry. Every \<open>stat\<close> is wrapped in a \<open>catch\<close>
  that ignores the error: with a file system on which every probe fails with \<open>EACCES\<close> the
  response is 404 and the log holds the request line only.
\<close>

theorem stat_error_not_500_counterexample:
  "requestHandler Inr ''/'' []
     \<lparr>listenPort = Number 80, serverRoot = ''/srv'', serverIndex = [''index.html''], locations = []\<rparr>
     denied_fs ''GET'' ''/secret.txt''
   = ([RequestLine ''GET'' ''/secret.txt'' ''default''], NotFound ''404 Not Found'')"
proof -
  have "safeJoin ''/'' ''/srv'' ''/secret.txt'' = Some ''/srv/secret.txt''"
    by (simp add: safeJoin_def normalize_def resolve_def normalizeString_def norm_segments_def
      norm_step_def slash_def backslash_def toLowerCase_def lower_char_def sep_def isAbsolute_def)
  then show ?thesis
    by (simp add: requestHandler_def pickLocation_def sort_by_def rootDir_of_def
        resolve_static_def try_files_of_def denied_fs_def)
qed

text \<open>
  C8 (amended). For every request, a failing probe is caught and handled as a missing file,
  whatever its error: log and response are those of the same request on the file system in
  which every failure is "not found". A failing probe never gives a 500 response or an error
  line in the log; those arise only from an exception outside the probes (here, from
  parsing the URL).
\<close>

theorem stat_errors_as_not_found:
  "requestHandler parse_url cwd workspaceRoot cfg fs reqMethod url
     = requestHandler parse_url cwd workspaceRoot cfg (errors_as_missing fs) reqMethod url
   \<and> (snd (requestHandler parse_url cwd workspaceRoot cfg fs reqMethod url) = ServerError
        \<or> (\<exists>message. ErrorLine message \<in> set (fst (requestHandler parse_url cwd workspaceRoot cfg fs reqMethod url)))
      \<longrightarrow> (\<exists>message. parse_url url = Inl message))"
proof -
  have "requestHandler parse_url cwd workspaceRoot cfg fs reqMethod url
     = requestHandler parse_url cwd workspaceRoot cfg (errors_as_missing fs) reqMethod url"
    by (cases "parse_url url")
      (auto simp: requestHandler_def Let_def resolve_static_errors_as_missing split: option.splits)
  moreover have "\<exists>message. parse_url url = Inl message"
    if "snd (requestHandler parse_url cwd workspaceRoot cfg fs reqMethod url) = ServerError
        \<or> (\<exists>message. ErrorLine message \<in> set (fst (requestHandler parse_url cwd workspaceRoot cfg fs reqMethod url)))"
    using that resolve_static_not_500
    by (cases "parse_url url") (auto simp: requestHandler_def Let_def split: option.splits if_splits)
  ultimately show ?thesis by blast
qed

theorem stat_errors_as_not_found_witness:
  "requestHandler Inr ''/'' []
     \<lparr>listenPort = Number 80, serverRoot = ''/srv'', serverIndex = [''index.html''], locations = []\<rparr>
     denied_fs ''GET'' ''/secret.txt''
   = requestHandler Inr ''/'' []
     \<lparr>listenPort = Number 80, serverRoot = ''/srv'', serverIndex = [''index.html''], locations = []\<rparr>
     (errors_as_missing denied_fs) ''GET'' ''/secret.txt''
   \<and> requestHandler Inl ''/'' []
     \<lparr>listenPort = Number 80, serverRoot = ''/srv'', serverIndex = [''index.html''], locations = []\<rparr>
     denied_fs ''GET'' ''Invalid URL''
   = ([ErrorLine ''Invalid URL''], ServerError)
   \<and> (\<exists>message. (Inl ''Invalid URL'' :: string + string) = Inl message)"
proof -
  let ?cfg = "\<lparr>listenPort = Number 80, serverRoot = ''/srv'', serverIndex = [''index.html''],
               locations = []\<rparr>"
  have thrown: "requestHandler Inl ''/'' [] ?cfg denied_fs ''GET'' ''Invalid URL''
      = ([ErrorLine ''Invalid URL''], ServerError)"
    by (simp add: requestHandler_def)
  from stat_errors_as_not_found [of Inr "''/''" "[]" ?cfg denied_fs "''GET''" "''/secret.txt''"]
  have same: "requestHandler Inr ''/'' [] ?cfg denied_fs ''GET'' ''/secret.txt''
      = requestHandler Inr ''/'' [] ?cfg (errors_as_missing denied_fs) ''GET'' ''/secret.txt''"
    by (rule conjunct1)
  from stat_errors_as_not_found [of Inl "''/''" "[]" ?cfg denied_fs "''GET''" "''Invalid URL''"]
    thrown
  have "\<exists>message. (Inl ''Invalid URL'' :: string + string) = Inl message"
    by simp
  with same thrown show ?thesis
    by blast
qed

section \<open>Verified properties of routing as a whole\<close>

text \<open>
  C9. Location matching and safe path resolution mutate nothing: a routing decision on the
  store leaves every array that existed before as it was (it only allocates the arrays of
  \<open>filter\<close>, of which it sorts the second), it equals the decision computed on values from
  the configuration and the path alone, and a second decision, taken on the store that the
  first one left, is the same.
\<close>

theorem routing_is_mutation_free:
  assumes "locations_ref < length store"
    and "routing_decision_store cwd workspaceRoot sr locations_ref pathname store = (d1, store1)"
    and "routing_decision_store cwd workspaceRoot sr locations_ref pathname store1 = (d2, store2)"
  shows "d2 = d1
    \<and> d1 = routing_decision cwd workspaceRoot
             \<lparr>listenPort = port, serverRoot = sr, serverIndex = idx,
              locations = store ! locations_ref\<rparr> pathname
    \<and> take (length store) store1 = store
    \<and> take (length store) store2 = store"
proof -
  let ?cfg = "\<lparr>listenPort = port, serverRoot = sr, serverIndex = idx,
              locations = store ! locations_ref\<rparr>"
  have s1: "store1 = snd (pickLocation_store locations_ref pathname store)"
    and d1: "d1 = (fst (pickLocation_store locations_ref pathname store),
        safeJoin cwd (rootDir_of workspaceRoot sr (fst (pickLocation_store locations_ref pathname store))) pathname)"
    using assms(2) by (auto simp: routing_decision_store_def split: prod.splits)
  have s2: "store2 = snd (pickLocation_store locations_ref pathname store1)"
    and d2: "d2 = (fst (pickLocation_store locations_ref pathname store1),
        safeJoin cwd (rootDir_of workspaceRoot sr (fst (pickLocation_store locations_ref pathname store1))) pathname)"
    using assms(3) by (auto simp: routing_decision_store_def split: prod.splits)
  have t1: "take (length store) store1 = store"
    unfolding s1 by (rule array_store_frame(2) [OF assms(1)])
  have len1: "length store \<le> length store1"
    unfolding s1 by (rule array_store_frame(3) [OF assms(1)])
  then have a1: "locations_ref < length store1"
    using assms(1) by simp
  have same: "store1 ! locations_ref = store ! locations_ref"
    using t1 assms(1) by (metis nth_take)
  have p1: "fst (pickLocation_store locations_ref pathname store) = pickLocation ?cfg pathname"
    by (rule array_store_frame(1) [OF assms(1)])
  have p2: "fst (pickLocation_store locations_ref pathname store1) = pickLocation ?cfg pathname"
    using array_store_frame(1) [OF a1, where pathname = pathname and port = port and sr = sr and idx = idx]
    unfolding same .
  have t12: "take (length store1) store2 = store1"
    unfolding s2 by (rule array_store_frame(2) [OF a1])
  have "take (length store) (take (length store1) store2) = take (length store) store2"
    using len1 by (simp add: min_def)
  then have t2: "take (length store) store2 = store"
    unfolding t12 t1 by simp
  show ?thesis
    using t1 t2 by (simp add: d1 d2 p1 p2 routing_decision_def Let_def)
qed

theorem routing_is_mutation_free_witness:
  "routing_decision_store ''/'' [] ''/srv'' 0 ''/api/x''
     [[\<lparr>kind = Prefix, matcher = ''/'', noRegex = False, regex = None,
        proxyPass = None, root = None, tryFiles = None\<rparr>,
       \<lparr>kind = Prefix, matcher = ''/api'', noRegex = False, regex = None,
        proxyPass = None, root = None, tryFiles = None\<rparr>]]
   = ((Some \<lparr>kind = Prefix, matcher = ''/api'', noRegex = False, regex = None,
              proxyPass = None, root = None, tryFiles = None\<rparr>,
       Some ''/srv/api/x''),
      [[\<lparr>kind = Prefix, matcher = ''/'', noRegex = False, regex = None,
         proxyPass = None, root = None, tryFiles = None\<rparr>,
        \<lparr>kind = Prefix, matcher = ''/api'', noRegex = False, regex = None,
         proxyPass = None, root = None, tryFiles = None\<rparr>],
       [],
       [\<lparr>kind = Prefix, matcher = ''/api'', noRegex = False, regex = None,
         proxyPass = None, root = None, tryFiles = None\<rparr>,
        \<lparr>kind = Prefix, matcher = ''/'', noRegex = False, regex = None,
         proxyPass = None, root = None, tryFiles = None\<rparr>]])
   \<and> fst (routing_decision_store ''/'' [] ''/srv'' 0 ''/api/x''
       [[\<lparr>kind = Prefix, matcher = ''/'', noRegex = False, regex = None,
          proxyPass = None, root = None, tryFiles = None\<rparr>,
         \<lparr>kind = Prefix, matcher = ''/api'', noRegex = False, regex = None,
          proxyPass = None, root = None, tryFiles = None\<rparr>],
        [],
        [\<lparr>kind = Prefix, matcher = ''/api'', noRegex = False, regex = None,
          proxyPass = None, root = None, tryFiles = None\<rparr>,
         \<lparr>kind = Prefix, matcher = ''/'', noRegex = False, regex = None,
          proxyPass = None, root = None, tryFiles = None\<rparr>]])
     = (Some \<lparr>kind = Prefix, matcher = ''/api'', noRegex = False, regex = None,
              proxyPass = None, root = None, tryFiles = None\<rparr>,
        Some ''/srv/api/x'')"
proof -
  define r_root where "r_root = \<lparr>kind = Prefix, matcher = ''/'', noRegex = False, regex = None,
        proxyPass = None, root = None, tryFiles = None\<rparr>"
  define r_api where "r_api = \<lparr>kind = Prefix, matcher = ''/api'', noRegex = False, regex = None,
        proxyPass = None, root = None, tryFiles = None\<rparr>"
  have sj: "safeJoin ''/'' ''/srv'' ''/api/x'' = Some ''/srv/api/x''"
    by (simp add: safeJoin_def normalize_def resolve_def normalizeString_def norm_segments_def
      norm_step_def slash_def backslash_def toLowerCase_def lower_char_def sep_def isAbsolute_def)
  have first: "routing_decision_store ''/'' [] ''/srv'' 0 ''/api/x'' [[r_root, r_api]]
      = ((Some r_api, Some ''/srv/api/x''), [[r_root, r_api], [], [r_api, r_root]])"
    by (simp add: routing_decision_store_def pickLocation_store_def array_filter_def
        array_sort_def sort_by_def longer_first_def is_exact_match_def is_prefix_match_def
        is_regex_match_def rootDir_of_def sj r_root_def r_api_def)
  obtain d2 store2 where second:
    "routing_decision_store ''/'' [] ''/srv'' 0 ''/api/x'' [[r_root, r_api], [], [r_api, r_root]]
      = (d2, store2)"
    by (cases "routing_decision_store ''/'' [] ''/srv'' 0 ''/api/x'' [[r_root, r_api], [], [r_api, r_root]]")
  have "0 < length [[r_root, r_api]]"
    by simp
  from routing_is_mutation_free [OF this first second] have "d2 = (Some r_api, Some ''/srv/api/x'')"
    by simp
  with first second show ?thesis
    unfolding r_root_def r_api_def by simp
qed

end
